theory Spec2Isabelle
  imports Main "HOL-Library.Code_Target_Nat"
begin

section \<open>The recent-searches store of the extension examples\<close>

text \<open>
  The module under verification keeps a list of recent search strings in the host's
  local storage, as a JSON array under a caller-chosen key. Its functions are
  \<open>getRecentSearches\<close>, \<open>clearRecentSearchesStore\<close>, \<open>setRecentSearches\<close>,
  \<open>appendRecentSearchesStore\<close> and, inside the hook \<open>useRecentSearch\<close>,
  \<open>dispatchAppend\<close>. They are embedded below, after the parts of the JavaScript run time
  and of the host they call: \<open>JSON.parse\<close>, \<open>JSON.stringify\<close>, \<open>Date\<close> and the three
  local-storage calls.

  A JavaScript string is the list of its UTF-16 code units, each a number below
  \<open>0x10000\<close>. A promise is the value it settles to: \<open>Inr\<close> when it resolves,
  \<open>Inl\<close> when it rejects; an exception thrown inside a \<open>try\<close> block is an \<open>Inl\<close> too.
  The operations run one after the other: the interleaving of two appends that are in
  flight at once is not modelled.
\<close>

datatype error = SyntaxError | TypeError | HostFailure

type_synonym jsstring = "nat list"

text \<open>The code unit of an ASCII character, and the string of an ASCII literal.\<close>

abbreviation (input) U :: "char \<Rightarrow> nat" where
  "U c \<equiv> of_char c"

definition str :: "string \<Rightarrow> jsstring" where
  "str s = map of_char s"

declare str_def [simp]

subsection \<open>JSON values and \<open>JSON.parse\<close>\<close>

text \<open>
  A number is kept as the decimal mantissa and exponent of its numeral (\<open>JNumber m e\<close>
  stands for \<open>m * 10^e\<close>), not as the double it rounds to: the store looks at a number
  only to ask whether it is truthy, which the numeral decides.
  An object keeps its members in the order of the text, duplicates included.
\<close>

datatype json =
    JNull
  | JBool bool
  | JNumber int int
  | JString jsstring
  | JArray "json list"
  | JObject "(jsstring \<times> json) list"

definition is_ws :: "nat \<Rightarrow> bool" where
  "is_ws c = (c = U (CHR '' '') \<or> c = U (CHR 0x09) \<or> c = U (CHR 0x0A) \<or> c = U (CHR 0x0D))"

definition skip_ws :: "jsstring \<Rightarrow> jsstring" where
  "skip_ws cs = dropWhile is_ws cs"

definition is_digit :: "nat \<Rightarrow> bool" where
  "is_digit c = (48 \<le> c \<and> c \<le> 57)"

definition digit_val :: "nat \<Rightarrow> nat" where
  "digit_val c = c - 48"

definition dec :: "jsstring \<Rightarrow> nat" where
  "dec cs = foldl (\<lambda>a c. 10 * a + digit_val c) 0 cs"

definition hex_val :: "nat \<Rightarrow> nat option" where
  "hex_val c =
     (if 48 \<le> c \<and> c \<le> 57 then Some (c - 48)
      else if 97 \<le> c \<and> c \<le> 102 then Some (c - 87)
      else if 65 \<le> c \<and> c \<le> 70 then Some (c - 55)
      else None)"

text \<open>The code unit that the four hexadecimal digits of an escape \<open>\uXXXX\<close> name.\<close>

definition hex4 :: "nat \<Rightarrow> nat \<Rightarrow> nat \<Rightarrow> nat \<Rightarrow> nat option" where
  "hex4 a b c d =
     (case (hex_val a, hex_val b, hex_val c, hex_val d) of
        (Some w, Some x, Some y, Some z) \<Rightarrow>
          Some (((w * 16 + x) * 16 + y) * 16 + z)
      | _ \<Rightarrow> None)"

definition unescape :: "nat \<Rightarrow> nat option" where
  "unescape e =
     (if e = U (CHR 0x22) then Some (U (CHR 0x22))
      else if e = U (CHR 0x5C) then Some (U (CHR 0x5C))
      else if e = U (CHR ''/'') then Some (U (CHR ''/''))
      else if e = U (CHR ''b'') then Some (U (CHR 0x08))
      else if e = U (CHR ''f'') then Some (U (CHR 0x0C))
      else if e = U (CHR ''n'') then Some (U (CHR 0x0A))
      else if e = U (CHR ''r'') then Some (U (CHR 0x0D))
      else if e = U (CHR ''t'') then Some (U (CHR 0x09))
      else None)"

text \<open>The characters of a string, read after its opening quote up to the closing one.\<close>

fun parse_chars :: "jsstring \<Rightarrow> (jsstring \<times> jsstring) option" where
  "parse_chars [] = None"
| "parse_chars (c # cs) =
     (if c = U (CHR 0x22) then Some ([], cs)
      else if c = U (CHR 0x5C) then
        (case cs of
           [] \<Rightarrow> None
         | e # cs1 \<Rightarrow>
             if e = U (CHR ''u'') then
               (case cs1 of
                  h1 # h2 # h3 # h4 # cs2 \<Rightarrow>
                    (case hex4 h1 h2 h3 h4 of
                       None \<Rightarrow> None
                     | Some ch \<Rightarrow> map_option (apfst ((#) ch)) (parse_chars cs2))
                | _ \<Rightarrow> None)
             else
               (case unescape e of
                  None \<Rightarrow> None
                | Some ch \<Rightarrow> map_option (apfst ((#) ch)) (parse_chars cs1)))
      else if c < 32 then None
      else map_option (apfst ((#) c)) (parse_chars cs))"

definition parse_frac :: "jsstring \<Rightarrow> (jsstring \<times> jsstring) option" where
  "parse_frac cs =
     (case cs of
        [] \<Rightarrow> Some ([], [])
      | c # r \<Rightarrow>
          if c = U (CHR ''.'') then
            (if takeWhile is_digit r = [] then None
             else Some (takeWhile is_digit r, dropWhile is_digit r))
          else Some ([], cs))"

definition parse_exp :: "jsstring \<Rightarrow> (int \<times> jsstring) option" where
  "parse_exp cs =
     (case cs of
        [] \<Rightarrow> Some (0, [])
      | c # r \<Rightarrow>
          if c = U (CHR ''e'') \<or> c = U (CHR ''E'') then
            (let (neg, r1) =
                   (case r of
                      [] \<Rightarrow> (False, r)
                    | s # r' \<Rightarrow>
                        if s = U (CHR ''-'') then (True, r')
                        else if s = U (CHR ''+'') then (False, r')
                        else (False, r))
             in if takeWhile is_digit r1 = [] then None
                else Some ((if neg then - 1 else 1) * int (dec (takeWhile is_digit r1)),
                           dropWhile is_digit r1))
          else Some (0, cs))"

definition parse_number :: "jsstring \<Rightarrow> (json \<times> jsstring) option" where
  "parse_number cs =
     (let (neg, cs1) =
            (case cs of
               [] \<Rightarrow> (False, cs)
             | c # r \<Rightarrow> if c = U (CHR ''-'') then (True, r) else (False, cs));
          ds = takeWhile is_digit cs1
      in if ds = [] \<or> (1 < length ds \<and> hd ds = U (CHR ''0'')) then None
         else
           (case parse_frac (dropWhile is_digit cs1) of
              None \<Rightarrow> None
            | Some (fs, cs2) \<Rightarrow>
                (case parse_exp cs2 of
                   None \<Rightarrow> None
                 | Some (e, cs3) \<Rightarrow>
                     Some (JNumber ((if neg then - 1 else 1) * int (dec (ds @ fs)))
                                   (e - int (length fs)), cs3))))"

lemma length_skip_ws: "length (skip_ws cs) \<le> length cs"
  by (simp add: skip_ws_def length_dropWhile_le)

lemma skip_ws_Cons_length: "skip_ws cs = c # r \<Longrightarrow> length r < length cs"
  using length_skip_ws [of cs] by simp

lemma parse_chars_length: "parse_chars cs = Some (s, r) \<Longrightarrow> length r < length cs"
proof (induction cs arbitrary: s r rule: parse_chars.induct)
  case 1
  then show ?case by simp
next
  case (2 c cs)
  then show ?case
    by (fastforce split: if_splits list.splits option.splits)
qed

text \<open>
  The recursive descent over values, array elements and object members. Each function
  returns what it read and the rest of the input. The two tests \<open>length _ < length cs\<close>
  make the recursion well-founded; they never fail, since a value is at least one
  character long (\<open>parse_elements_test_free\<close> and \<open>parse_members_test_free\<close> below).
\<close>

function parse_value :: "jsstring \<Rightarrow> (json \<times> jsstring) option"
  and parse_elements :: "jsstring \<Rightarrow> (json list \<times> jsstring) option"
  and parse_members :: "jsstring \<Rightarrow> ((jsstring \<times> json) list \<times> jsstring) option"
where
  "parse_value cs =
     (case skip_ws cs of
        [] \<Rightarrow> None
      | c # r \<Rightarrow>
          if c = U (CHR ''['') then
            (case skip_ws r of
               [] \<Rightarrow> None
             | d # r' \<Rightarrow>
                 if d = U (CHR '']'') then Some (JArray [], r')
                 else map_option (apfst JArray) (parse_elements r))
          else if c = U (CHR ''{'') then
            (case skip_ws r of
               [] \<Rightarrow> None
             | d # r' \<Rightarrow>
                 if d = U (CHR ''}'') then Some (JObject [], r')
                 else map_option (apfst JObject) (parse_members r))
          else if c = U (CHR 0x22) then map_option (apfst JString) (parse_chars r)
          else if take 4 (c # r) = (str ''true'') then Some (JBool True, drop 4 (c # r))
          else if take 5 (c # r) = (str ''false'') then Some (JBool False, drop 5 (c # r))
          else if take 4 (c # r) = (str ''null'') then Some (JNull, drop 4 (c # r))
          else parse_number (c # r))"
| "parse_elements cs =
     (case parse_value cs of
        None \<Rightarrow> None
      | Some (v, r) \<Rightarrow>
          (case skip_ws r of
             [] \<Rightarrow> None
           | c # r' \<Rightarrow>
               if c = U (CHR '','') \<and> length r' < length cs then
                 map_option (apfst ((#) v)) (parse_elements r')
               else if c = U (CHR '']'') then Some ([v], r')
               else None))"
| "parse_members cs =
     (case skip_ws cs of
        [] \<Rightarrow> None
      | q # r \<Rightarrow>
          if q = U (CHR 0x22) then
            (case parse_chars r of
               None \<Rightarrow> None
             | Some (k, r1) \<Rightarrow>
                 (case skip_ws r1 of
                    [] \<Rightarrow> None
                  | c # r2 \<Rightarrow>
                      if c = U (CHR '':'') then
                        (case parse_value r2 of
                           None \<Rightarrow> None
                         | Some (v, r3) \<Rightarrow>
                             (case skip_ws r3 of
                                [] \<Rightarrow> None
                              | d # r4 \<Rightarrow>
                                  if d = U (CHR '','') \<and> length r4 < length cs then
                                    map_option (apfst ((#) (k, v))) (parse_members r4)
                                  else if d = U (CHR ''}'') then Some ([(k, v)], r4)
                                  else None))
                      else None))
          else None)"
  by pat_completeness auto
termination
proof (relation "measure (\<lambda>x. case x of Inl cs \<Rightarrow> 2 * length cs
                                   | Inr (Inl cs) \<Rightarrow> 2 * length cs + 1
                                   | Inr (Inr cs) \<Rightarrow> 2 * length cs + 1)", goal_cases)
  case 1
  then show ?case by simp
next
  case (2 cs c r)
  then show ?case by (auto dest: skip_ws_Cons_length)
next
  case (3 cs c r)
  then show ?case by (auto dest: skip_ws_Cons_length)
next
  case (4 cs)
  then show ?case by simp
next
  case (5 cs x2 v r c r')
  then show ?case by simp
next
  case (6 cs q r x2 k r1 c r2)
  then show ?case
    by (auto dest!: skip_ws_Cons_length parse_chars_length)
next
  case (7 cs)
  then show ?case by simp
qed

declare parse_value.simps [simp del] parse_elements.simps [simp del]
  parse_members.simps [simp del]

text \<open>\<open>JSON.parse(s)\<close>: one value between optional white space, or a \<open>SyntaxError\<close>.\<close>

definition JSON_parse :: "jsstring \<Rightarrow> error + json" where
  "JSON_parse s =
     (case parse_value s of
        None \<Rightarrow> Inl SyntaxError
      | Some (v, r) \<Rightarrow> if skip_ws r = [] then Inr v else Inl SyntaxError)"

subsection \<open>\<open>Date\<close>: time values, \<open>toISOString\<close> and \<open>new Date\<close>\<close>

text \<open>
  A \<open>Date\<close> object holds a time value, the milliseconds since 1 January 1970 UTC, or
  \<open>NaN\<close> (an "Invalid Date"). The day and year arithmetic is that of ECMAScript's
  "Time Values and Time Range".
\<close>

datatype Date = DateValue int | InvalidDate

definition msPerDay :: int where
  "msPerDay = 86400000"

definition Day :: "int \<Rightarrow> int" where
  "Day t = t div msPerDay"

definition TimeWithinDay :: "int \<Rightarrow> int" where
  "TimeWithinDay t = t mod msPerDay"

definition DaysInYear :: "int \<Rightarrow> int" where
  "DaysInYear y =
     (if y mod 4 \<noteq> 0 then 365
      else if y mod 100 \<noteq> 0 then 366
      else if y mod 400 \<noteq> 0 then 365
      else 366)"

definition DayFromYear :: "int \<Rightarrow> int" where
  "DayFromYear y =
     365 * (y - 1970) + (y - 1969) div 4 - (y - 1901) div 100 + (y - 1601) div 400"

lemma div_step:
  fixes a k :: int
  assumes "0 < k"
  shows "(a + 1) div k = a div k + (if (a + 1) mod k = 0 then 1 else 0)"
proof (cases "(a + 1) mod k = 0")
  case True
  then have "a + 1 = k * ((a + 1) div k)"
    by (metis add.right_neutral mult_div_mod_eq)
  then have "a = k * ((a + 1) div k - 1) + (k - 1)"
    by (simp add: algebra_simps)
  then have "a div k = (a + 1) div k - 1"
    using assms by (intro int_div_pos_eq [of a k _ "k - 1"]) simp_all
  with True show ?thesis by simp
next
  case False
  define r where "r = (a + 1) mod k"
  have r: "0 < r" "r < k"
    using False assms pos_mod_sign [of k "a + 1"] pos_mod_bound [of k "a + 1"]
    by (simp_all add: r_def less_le)
  have "a + 1 = k * ((a + 1) div k) + r"
    by (simp add: r_def)
  then have "a = k * ((a + 1) div k) + (r - 1)"
    by simp
  then have "a div k = (a + 1) div k"
    using r by (intro int_div_pos_eq [of a k _ "r - 1"]) simp_all
  with False show ?thesis by simp
qed

lemma mod_shift:
  fixes y k c :: int
  shows "(y - k * c) mod k = y mod k"
  by (metis diff_conv_add_uminus mod_mult_self2 mult_minus_right)

lemma DayFromYear_next: "DayFromYear (y + 1) = DayFromYear y + DaysInYear y"
proof -
  define A where "A = (y - 1969) div 4"
  define B where "B = (y - 1901) div 100"
  define C where "C = (y - 1601) div 400"
  have a: "(y - 1968) div 4 = A + (if y mod 4 = 0 then 1 else 0)"
    using div_step [of 4 "y - 1969"] mod_shift [of y 4 492] by (simp add: A_def)
  have b: "(y - 1900) div 100 = B + (if y mod 100 = 0 then 1 else 0)"
    using div_step [of 100 "y - 1901"] mod_shift [of y 100 19] by (simp add: B_def)
  have c: "(y - 1600) div 400 = C + (if y mod 400 = 0 then 1 else 0)"
    using div_step [of 400 "y - 1601"] mod_shift [of y 400 4] by (simp add: C_def)
  have d1: "y mod 100 = 0" if "y mod 400 = 0"
    using that mod_mod_cancel [of 100 400 y] by simp
  have d2: "y mod 4 = 0" if "y mod 100 = 0"
    using that mod_mod_cancel [of 4 100 y] by simp
  have l: "DayFromYear (y + 1) =
      365 * (y - 1969) + (y - 1968) div 4 - (y - 1900) div 100 + (y - 1600) div 400"
    by (simp add: DayFromYear_def)
  have r: "DayFromYear y = 365 * (y - 1970) + A - B + C"
    by (simp add: DayFromYear_def A_def B_def C_def)
  show ?thesis
  proof (cases "y mod 4 = 0")
    case False
    with d1 d2 have "y mod 100 \<noteq> 0" "y mod 400 \<noteq> 0" by auto
    with False show ?thesis unfolding l r a b c DaysInYear_def by simp
  next
    case y4: True
    show ?thesis
    proof (cases "y mod 100 = 0")
      case False
      with d1 have "y mod 400 \<noteq> 0" by auto
      with False y4 show ?thesis unfolding l r a b c DaysInYear_def by simp
    next
      case y100: True
      show ?thesis
        by (cases "y mod 400 = 0") (simp_all add: l r a b c DaysInYear_def y4 y100)
    qed
  qed
qed

lemma DaysInYear_bounds: "365 \<le> DaysInYear y" "DaysInYear y \<le> 366"
  by (simp_all add: DaysInYear_def)

text \<open>
  \<open>YearFromTime(t)\<close> is the largest year \<open>y\<close> with \<open>DayFromYear(y) \<le> Day(t)\<close>. It is
  found by counting up from a year that starts no later than the day.
\<close>

function year_search :: "int \<Rightarrow> int \<Rightarrow> int" where
  "year_search d y = (if DayFromYear (y + 1) \<le> d then year_search d (y + 1) else y)"
  by pat_completeness auto
termination
proof (relation "measure (\<lambda>(d, y). nat (d - DayFromYear y))", goal_cases)
  case 1
  then show ?case by simp
next
  case (2 d y)
  then show ?case
    using DaysInYear_bounds(1) [of y] by (simp add: DayFromYear_next)
qed

declare year_search.simps [simp del]

definition YearFromTime :: "int \<Rightarrow> int" where
  "YearFromTime t =
     year_search (Day t) (1970 + (if 0 \<le> Day t then Day t div 366 else Day t div 365))"

definition InLeapYear :: "int \<Rightarrow> int" where
  "InLeapYear t = (if DaysInYear (YearFromTime t) = 365 then 0 else 1)"

definition DayWithinYear :: "int \<Rightarrow> int" where
  "DayWithinYear t = Day t - DayFromYear (YearFromTime t)"

text \<open>The day of the year on which month \<open>m\<close> (0 to 11) starts, in a year whose leap-day count is \<open>l\<close>.\<close>

definition month_start :: "int \<Rightarrow> int \<Rightarrow> int" where
  "month_start m l =
     (if m = 0 then 0 else if m = 1 then 31 else if m = 2 then 59 + l
      else if m = 3 then 90 + l else if m = 4 then 120 + l else if m = 5 then 151 + l
      else if m = 6 then 181 + l else if m = 7 then 212 + l else if m = 8 then 243 + l
      else if m = 9 then 273 + l else if m = 10 then 304 + l else 334 + l)"

definition MonthFromTime :: "int \<Rightarrow> int" where
  "MonthFromTime t =
     (let d = DayWithinYear t; l = InLeapYear t in
      if d < 31 then 0 else if d < 59 + l then 1 else if d < 90 + l then 2
      else if d < 120 + l then 3 else if d < 151 + l then 4 else if d < 181 + l then 5
      else if d < 212 + l then 6 else if d < 243 + l then 7 else if d < 273 + l then 8
      else if d < 304 + l then 9 else if d < 334 + l then 10 else 11)"

definition DateFromTime :: "int \<Rightarrow> int" where
  "DateFromTime t = DayWithinYear t - month_start (MonthFromTime t) (InLeapYear t) + 1"

definition HourFromTime :: "int \<Rightarrow> int" where
  "HourFromTime t = TimeWithinDay t div 3600000"

definition MinFromTime :: "int \<Rightarrow> int" where
  "MinFromTime t = (TimeWithinDay t div 60000) mod 60"

definition SecFromTime :: "int \<Rightarrow> int" where
  "SecFromTime t = (TimeWithinDay t div 1000) mod 60"

definition msFromTime :: "int \<Rightarrow> int" where
  "msFromTime t = TimeWithinDay t mod 1000"

definition MakeTime :: "int \<Rightarrow> int \<Rightarrow> int \<Rightarrow> int \<Rightarrow> int" where
  "MakeTime h m s ms = h * 3600000 + m * 60000 + s * 1000 + ms"

text \<open>\<open>MakeDay\<close> for a month in 0 to 11: days past the month's start roll over into the next.\<close>

definition MakeDay :: "int \<Rightarrow> int \<Rightarrow> int \<Rightarrow> int" where
  "MakeDay y m dt =
     DayFromYear y + month_start m (if DaysInYear y = 365 then 0 else 1) + dt - 1"

definition MakeDate :: "int \<Rightarrow> int \<Rightarrow> int" where
  "MakeDate day time = day * msPerDay + time"

definition TimeClip :: "int \<Rightarrow> int option" where
  "TimeClip t = (if 8640000000000000 < \<bar>t\<bar> then None else Some t)"

text \<open>A number written with exactly \<open>n\<close> decimal digits, and read as such.\<close>

fun pad :: "nat \<Rightarrow> nat \<Rightarrow> jsstring" where
  "pad 0 k = []"
| "pad (Suc n) k = pad n (k div 10) @ [48 + k mod 10]"

definition digits :: "nat \<Rightarrow> jsstring \<Rightarrow> (int \<times> jsstring) option" where
  "digits n cs =
     (if n \<le> length cs \<and> list_all is_digit (take n cs)
      then Some (int (dec (take n cs)), drop n cs) else None)"

text \<open>
  \<open>Date.prototype.toISOString\<close> of a time value: \<open>YYYY-MM-DDTHH:mm:ss.sssZ\<close>, the year
  with a sign and six digits when it is not within 0 to 9999.
\<close>

definition iso_year :: "int \<Rightarrow> jsstring" where
  "iso_year y =
     (if 0 \<le> y \<and> y \<le> 9999 then pad 4 (nat y)
      else (if y < 0 then U (CHR ''-'') else U (CHR ''+'')) # pad 6 (nat \<bar>y\<bar>))"

definition toISOString :: "int \<Rightarrow> jsstring" where
  "toISOString t =
     iso_year (YearFromTime t) @ (str ''-'') @ pad 2 (nat (MonthFromTime t + 1)) @ (str ''-'')
       @ pad 2 (nat (DateFromTime t)) @ (str ''T'') @ pad 2 (nat (HourFromTime t)) @ (str '':'')
       @ pad 2 (nat (MinFromTime t)) @ (str '':'') @ pad 2 (nat (SecFromTime t)) @ (str ''.'')
       @ pad 3 (nat (msFromTime t)) @ (str ''Z'')"

text \<open>
  \<open>Date.parse\<close> belongs to the JavaScript engine. ECMAScript fixes what it returns for
  the strings of the "Date Time String Format" and leaves every other string to the
  engine, which may read it by rules of its own or return \<open>NaN\<close>. So the store below
  takes the engine's \<open>Date.parse\<close> as a parameter \<open>dp\<close>, a function from strings to
  time values in which \<open>None\<close> is \<open>NaN\<close>, and nothing is assumed about it but what a
  statement says.

  \<open>Date_parse_ISO\<close> is one such function, used to run the store on examples. It reads
  the Date Time String Format with an explicit time zone: a date \<open>YYYY\<close>, \<open>YYYY-MM\<close>
  or \<open>YYYY-MM-DD\<close> (the year also as \<open>+YYYYYY\<close> or \<open>-YYYYYY\<close>), alone or followed by
  \<open>THH:mm\<close>, \<open>THH:mm:ss\<close> or \<open>THH:mm:ss.sss\<close> and then \<open>Z\<close> or an offset \<open>+HH:mm\<close> or
  \<open>-HH:mm\<close>. For every other string it returns \<open>NaN\<close>.
\<close>

definition parse_year :: "jsstring \<Rightarrow> (int \<times> jsstring) option" where
  "parse_year cs =
     (case cs of
        [] \<Rightarrow> None
      | c # r \<Rightarrow>
          if c = U (CHR ''+'') then digits 6 r
          else if c = U (CHR ''-'') then
            (case digits 6 r of
               None \<Rightarrow> None
             | Some (y, r') \<Rightarrow> if y = 0 then None else Some (- y, r'))
          else digits 4 cs)"

text \<open>An optional field: the separator \<open>sep\<close> and \<open>n\<close> digits, or the default \<open>dflt\<close>.\<close>

definition opt_field :: "nat \<Rightarrow> nat \<Rightarrow> int \<Rightarrow> jsstring \<Rightarrow> (int \<times> jsstring \<times> bool) option" where
  "opt_field sep n dflt cs =
     (case cs of
        [] \<Rightarrow> Some (dflt, cs, False)
      | c # r \<Rightarrow>
          if c = sep then map_option (\<lambda>(v, r'). (v, r', True)) (digits n r)
          else Some (dflt, cs, False))"

definition parse_date :: "jsstring \<Rightarrow> (int \<times> int \<times> int \<times> jsstring) option" where
  "parse_date cs =
     (case parse_year cs of
        None \<Rightarrow> None
      | Some (y, r0) \<Rightarrow>
          (case opt_field (U (CHR ''-'')) 2 1 r0 of
             None \<Rightarrow> None
           | Some (m, r1, has_month) \<Rightarrow>
               if has_month then
                 (case opt_field (U (CHR ''-'')) 2 1 r1 of
                    None \<Rightarrow> None
                  | Some (d, r2, _) \<Rightarrow> Some (y, m, d, r2))
               else Some (y, m, 1, r1)))"

definition parse_time :: "jsstring \<Rightarrow> (int \<times> jsstring) option" where
  "parse_time cs =
     (case digits 2 cs of
        None \<Rightarrow> None
      | Some (h, r0) \<Rightarrow>
          (case r0 of
             [] \<Rightarrow> None
           | c # r1 \<Rightarrow>
               if c \<noteq> U (CHR '':'') then None
               else
                 (case digits 2 r1 of
                    None \<Rightarrow> None
                  | Some (mi, r2) \<Rightarrow>
                      (case opt_field (U (CHR '':'')) 2 0 r2 of
                         None \<Rightarrow> None
                       | Some (s, r3, has_sec) \<Rightarrow>
                           (case (if has_sec then opt_field (U (CHR ''.'')) 3 0 r3
                                  else Some (0, r3, False)) of
                              None \<Rightarrow> None
                            | Some (ms, r4, _) \<Rightarrow>
                                if (h \<le> 23 \<or> (h = 24 \<and> mi = 0 \<and> s = 0 \<and> ms = 0))
                                   \<and> mi \<le> 59 \<and> s \<le> 59
                                then Some (MakeTime h mi s ms, r4) else None)))))"

text \<open>The time zone of a date-time: \<open>Z\<close>, or an offset in milliseconds east of UTC.\<close>

definition parse_offset :: "jsstring \<Rightarrow> int option" where
  "parse_offset cs =
     (if cs = (str ''Z'') then Some 0
      else
        (case cs of
           [] \<Rightarrow> None
         | c # r \<Rightarrow>
             if c = U (CHR ''+'') \<or> c = U (CHR ''-'') then
               (case digits 2 r of
                  None \<Rightarrow> None
                | Some (h, r1) \<Rightarrow>
                    (case r1 of
                       [] \<Rightarrow> None
                     | d # r2 \<Rightarrow>
                         if d \<noteq> U (CHR '':'') then None
                         else
                           (case digits 2 r2 of
                              None \<Rightarrow> None
                            | Some (mi, r3) \<Rightarrow>
                                if r3 = [] \<and> h \<le> 23 \<and> mi \<le> 59
                                then Some ((if c = U (CHR ''-'') then - 1 else 1)
                                            * MakeTime h mi 0 0)
                                else None)))
             else None))"

definition Date_parse_ISO :: "jsstring \<Rightarrow> int option" where
  "Date_parse_ISO s =
     (case parse_date s of
        None \<Rightarrow> None
      | Some (y, m, d, r) \<Rightarrow>
          if \<not> (1 \<le> m \<and> m \<le> 12 \<and> 1 \<le> d \<and> d \<le> 31) then None
          else
            (case r of
               [] \<Rightarrow> TimeClip (MakeDate (MakeDay y (m - 1) d) 0)
             | c # r' \<Rightarrow>
                 if c \<noteq> U (CHR ''T'') then None
                 else
                   (case parse_time r' of
                      None \<Rightarrow> None
                    | Some (time, r'') \<Rightarrow>
                        (case parse_offset r'' of
                           None \<Rightarrow> None
                         | Some off \<Rightarrow>
                             TimeClip (MakeDate (MakeDay y (m - 1) d) time - off)))))"

text \<open>
  \<open>new Date(s)\<close> for a string \<open>s\<close>, on an engine whose \<open>Date.parse\<close> is \<open>dp\<close>: the time
  value is \<open>TimeClip\<close> of what the engine parsed. Then \<open>Date.prototype.toJSON\<close>.
\<close>

definition new_Date :: "(jsstring \<Rightarrow> int option) \<Rightarrow> jsstring \<Rightarrow> Date" where
  "new_Date dp s =
     (case dp s of
        None \<Rightarrow> InvalidDate
      | Some tv \<Rightarrow> (case TimeClip tv of None \<Rightarrow> InvalidDate | Some t \<Rightarrow> DateValue t))"

definition toJSON :: "Date \<Rightarrow> jsstring option" where
  "toJSON d = (case d of InvalidDate \<Rightarrow> None | DateValue t \<Rightarrow> Some (toISOString t))"

subsection \<open>\<open>JSON.stringify\<close> of a list of recent searches\<close>

record RecentSearch =
  "text" :: jsstring
  timestamp :: Date

definition hex_digit :: "nat \<Rightarrow> nat" where
  "hex_digit n = (if n < 10 then 48 + n else 87 + n)"

text \<open>
  \<open>QuoteJSONString\<close> goes through the code points of the string. The quote, the
  backslash and the control characters are escaped; so is a surrogate code unit that
  is not part of a pair, as \<open>\uXXXX\<close> with lower-case digits. Every other code point
  stands for itself, a surrogate pair as its two code units.
\<close>

definition is_lead :: "nat \<Rightarrow> bool" where
  "is_lead c = (0xD800 \<le> c \<and> c \<le> 0xDBFF)"

definition is_trail :: "nat \<Rightarrow> bool" where
  "is_trail c = (0xDC00 \<le> c \<and> c \<le> 0xDFFF)"

definition UnicodeEscape :: "nat \<Rightarrow> jsstring" where
  "UnicodeEscape c =
     [U (CHR 0x5C), U (CHR ''u''), hex_digit (c div 4096 mod 16), hex_digit (c div 256 mod 16),
      hex_digit (c div 16 mod 16), hex_digit (c mod 16)]"

definition escape_char :: "nat \<Rightarrow> jsstring" where
  "escape_char c =
     (if c = U (CHR 0x22) then [U (CHR 0x5C), U (CHR 0x22)]
      else if c = U (CHR 0x5C) then [U (CHR 0x5C), U (CHR 0x5C)]
      else if c = U (CHR 0x08) then [U (CHR 0x5C), U (CHR ''b'')]
      else if c = U (CHR 0x0C) then [U (CHR 0x5C), U (CHR ''f'')]
      else if c = U (CHR 0x0A) then [U (CHR 0x5C), U (CHR ''n'')]
      else if c = U (CHR 0x0D) then [U (CHR 0x5C), U (CHR ''r'')]
      else if c = U (CHR 0x09) then [U (CHR 0x5C), U (CHR ''t'')]
      else if c < 32 \<or> is_lead c \<or> is_trail c then UnicodeEscape c
      else [c])"

fun quote_units :: "jsstring \<Rightarrow> jsstring" where
  "quote_units [] = []"
| "quote_units [c] = escape_char c"
| "quote_units (c # d # cs) =
     (if is_lead c \<and> is_trail d then c # d # quote_units cs
      else escape_char c @ quote_units (d # cs))"

definition QuoteJSONString :: "jsstring \<Rightarrow> jsstring" where
  "QuoteJSONString s = U (CHR 0x22) # quote_units s @ [U (CHR 0x22)]"

text \<open>
  One \<open>RecentSearch\<close> object: its two properties in the order the store creates them.
  The timestamp is serialised through \<open>toJSON\<close>, so an Invalid Date becomes \<open>null\<close>.
\<close>

definition stringify_search :: "RecentSearch \<Rightarrow> jsstring" where
  \<open>stringify_search r =
     (str ''{"text":'') @ QuoteJSONString (text r) @ (str '',"timestamp":'')
       @ (case toJSON (timestamp r) of None \<Rightarrow> (str ''null'') | Some s \<Rightarrow> QuoteJSONString s)
       @ (str ''}'')\<close>

fun join_comma :: "jsstring list \<Rightarrow> jsstring" where
  "join_comma [] = []"
| "join_comma [x] = x"
| "join_comma (x # y # ys) = x @ (str '','') @ join_comma (y # ys)"

text \<open>\<open>JSON.stringify(recentSearches)\<close> for a value of type \<open>RecentSearch[]\<close>.\<close>

definition JSON_stringify :: "RecentSearch list \<Rightarrow> jsstring" where
  "JSON_stringify rs = (str ''['') @ join_comma (map stringify_search rs) @ (str '']'')"

subsection \<open>The host's local storage\<close>

text \<open>
  The host keeps one value per key: a string, a number or a boolean. Each of its three
  calls returns a promise, which rejects when the host fails; the three flags say
  which calls fail. A request takes effect when it is issued, so a later request sees
  every earlier write. The store calls one method of a stored value, \<open>toString\<close>; a
  number is kept as the string that \<open>Number.prototype.toString\<close> returns for it, such
  as \<open>42\<close>, \<open>-1.5\<close>, \<open>1e+21\<close> or \<open>NaN\<close>.
\<close>

datatype LocalStorageValue = LSString jsstring | LSNumber jsstring | LSBoolean bool

definition toString :: "LocalStorageValue \<Rightarrow> jsstring" where
  "toString v =
     (case v of
        LSString s \<Rightarrow> s
      | LSNumber n \<Rightarrow> n
      | LSBoolean b \<Rightarrow> if b then (str ''true'') else (str ''false''))"

record host =
  items :: "jsstring \<rightharpoonup> LocalStorageValue"
  get_fails :: bool
  set_fails :: bool
  remove_fails :: bool

definition getLocalStorageItem :: "host \<Rightarrow> jsstring \<Rightarrow> error + LocalStorageValue option" where
  "getLocalStorageItem h key = (if get_fails h then Inl HostFailure else Inr (items h key))"

definition setLocalStorageItem :: "host \<Rightarrow> jsstring \<Rightarrow> jsstring \<Rightarrow> (error + unit) \<times> host" where
  "setLocalStorageItem h key v =
     (if set_fails h then (Inl HostFailure, h)
      else (Inr (), h\<lparr>items := (items h)(key \<mapsto> LSString v)\<rparr>))"

definition removeLocalStorageItem :: "host \<Rightarrow> jsstring \<Rightarrow> (error + unit) \<times> host" where
  "removeLocalStorageItem h key =
     (if remove_fails h then (Inl HostFailure, h)
      else (Inr (), h\<lparr>items := (items h)(key := None)\<rparr>))"

subsection \<open>The store\<close>

text \<open>
  JavaScript's truthiness of a parsed value. A number is falsy when the double it
  rounds to is zero: when its magnitude is at most \<open>2^-1075\<close>, half the smallest
  positive double. Then the property access \<open>r.name\<close> for the two names the store
  reads, \<open>text\<close> and \<open>timestamp\<close>: on \<open>null\<close> it throws a \<open>TypeError\<close>; on an object it
  is the last member of that name; on anything else, and on an object without the
  member, it is \<open>undefined\<close> (\<open>None\<close>).
\<close>

definition truthy :: "json \<Rightarrow> bool" where
  "truthy v =
     (case v of
        JNull \<Rightarrow> False
      | JBool b \<Rightarrow> b
      | JNumber m e \<Rightarrow> if 0 \<le> e then m \<noteq> 0 else 10 ^ nat (- e) < \<bar>m\<bar> * 2 ^ 1075
      | JString s \<Rightarrow> s \<noteq> []
      | JArray xs \<Rightarrow> True
      | JObject kvs \<Rightarrow> True)"

definition get_property :: "json \<Rightarrow> jsstring \<Rightarrow> error + json option" where
  "get_property r name =
     (case r of
        JNull \<Rightarrow> Inl TypeError
      | JObject kvs \<Rightarrow> Inr (map_of (rev kvs) name)
      | _ \<Rightarrow> Inr None)"

text \<open>\<open>x || undefined\<close>.\<close>

definition or_undefined :: "json option \<Rightarrow> json option" where
  "or_undefined x =
     (case x of None \<Rightarrow> None | Some v \<Rightarrow> if truthy v then Some v else None)"

text \<open>
  The \<open>for (const r of json)\<close> loop of \<open>getRecentSearches\<close>, with \<open>result\<close> as
  accumulator. \<open>text\<close> stays \<open>undefined\<close> (\<open>None\<close>) unless \<open>t\<close> is a string; each
  \<open>continue\<close> goes on with the next element and the same \<open>result\<close>. In the last
  test, \<open>text && text.length > 0 && timestamp\<close>, the third conjunct is true: \<open>timestamp\<close>
  is a \<open>Date\<close> object there, and an object is truthy, an Invalid Date included.
\<close>

fun getRecentSearches_loop :: "(jsstring \<Rightarrow> int option) \<Rightarrow> json list \<Rightarrow> RecentSearch list \<Rightarrow> error + RecentSearch list" where
  "getRecentSearches_loop dp [] result = Inr result"
| "getRecentSearches_loop dp (r # rs) result =
     (case get_property r (str ''text'') of
        Inl e \<Rightarrow> Inl e
      | Inr rtext \<Rightarrow>
          (let t = or_undefined rtext;
               text_opt = (case t of Some (JString s) \<Rightarrow> Some s | _ \<Rightarrow> None)
           in if (case text_opt of Some s \<Rightarrow> length s \<le> 0 | None \<Rightarrow> False)
              then getRecentSearches_loop dp rs result
              else
                (case get_property r (str ''timestamp'') of
                   Inl e \<Rightarrow> Inl e
                 | Inr rts \<Rightarrow>
                     (case or_undefined rts of
                        Some (JString ts) \<Rightarrow>
                          (let timestamp_v = new_Date dp ts in
                           case text_opt of
                             Some s \<Rightarrow>
                               if s \<noteq> [] \<and> 0 < length s
                               then getRecentSearches_loop dp rs
                                      (result @ [\<lparr>text = s, timestamp = timestamp_v\<rparr>])
                               else getRecentSearches_loop dp rs result
                           | None \<Rightarrow> getRecentSearches_loop dp rs result)
                      | _ \<Rightarrow> getRecentSearches_loop dp rs result))))"

text \<open>
  The \<open>try\<close> block of \<open>getRecentSearches\<close>: \<open>Inl\<close> when it throws, \<open>Inr (Some result)\<close>
  when it reaches \<open>return result\<close>, \<open>Inr None\<close> when it ends without returning.
  \<open>payload\<close> is \<open>store?.toString()\<close>, which is \<open>undefined\<close> when \<open>store\<close> is.
\<close>

definition getRecentSearches_try ::
  "(jsstring \<Rightarrow> int option) \<Rightarrow> host \<Rightarrow> jsstring \<Rightarrow> error + RecentSearch list option" where
  "getRecentSearches_try dp h key =
     (case getLocalStorageItem h key of
        Inl e \<Rightarrow> Inl e
      | Inr store \<Rightarrow>
          (case map_option toString store of
             None \<Rightarrow> Inr None
           | Some payload \<Rightarrow>
               if payload = [] then Inr None
               else
                 (case JSON_parse payload of
                    Inl e \<Rightarrow> Inl e
                  | Inr json \<Rightarrow>
                      if truthy json then
                        (case json of
                           JArray elems \<Rightarrow>
                             (case getRecentSearches_loop dp elems [] of
                                Inl e \<Rightarrow> Inl e
                              | Inr result \<Rightarrow> Inr (Some result))
                         | _ \<Rightarrow> Inr (Some []))
                      else Inr None)))"

text \<open>
  \<open>getRecentSearches\<close>: the promise of a \<open>RecentSearch[] | undefined\<close>, where \<open>None\<close>
  is \<open>undefined\<close>. The \<open>catch\<close> ignores the error, and \<open>return []\<close> follows the
  \<open>try\<close> statement.
\<close>

definition getRecentSearches ::
  "(jsstring \<Rightarrow> int option) \<Rightarrow> host \<Rightarrow> jsstring \<Rightarrow> error + RecentSearch list option" where
  "getRecentSearches dp h key =
     (case getRecentSearches_try dp h key of
        Inr (Some result) \<Rightarrow> Inr (Some result)
      | _ \<Rightarrow> Inr (Some []))"

definition clearRecentSearchesStore :: "host \<Rightarrow> jsstring \<Rightarrow> (error + unit) \<times> host" where
  "clearRecentSearchesStore h key = removeLocalStorageItem h key"

definition setRecentSearches :: "host \<Rightarrow> jsstring \<Rightarrow> RecentSearch list \<Rightarrow> (error + unit) \<times> host" where
  "setRecentSearches h key recentSearches =
     (let payload = JSON_stringify recentSearches in setLocalStorageItem h key payload)"

text \<open>
  \<open>appendRecentSearchesStore\<close> awaits \<open>getRecentSearches\<close> but not
  \<open>setRecentSearches\<close>: the write is issued, and whether its promise resolves or
  rejects is not looked at, so only the host it leaves behind is kept.
\<close>

definition appendRecentSearchesStore ::
  "(jsstring \<Rightarrow> int option) \<Rightarrow> host \<Rightarrow> jsstring \<Rightarrow> RecentSearch \<Rightarrow> (error + unit) \<times> host" where
  "appendRecentSearchesStore dp h key search =
     (case getRecentSearches dp h key of
        Inl e \<Rightarrow> (Inl e, h)
      | Inr data \<Rightarrow>
          if (case data of None \<Rightarrow> False | Some d \<Rightarrow> 0 < length d) then
            (let freshData = take 20 (search # the data)
             in (Inr (), snd (setRecentSearches h key freshData)))
          else (Inr (), snd (setRecentSearches h key [search])))"

text \<open>
  \<open>dispatchAppend\<close> of \<open>useRecentSearch\<close>, which is what the hook's
  \<open>appendRecentSearches(text, true)\<close> awaits: \<open>now\<close> is the time value of \<open>new Date()\<close>,
  the clock as read during the call. The optional \<open>setSearchText\<close> callback belongs to
  the user interface and is left out.
\<close>

definition dispatchAppend ::
  "(jsstring \<Rightarrow> int option) \<Rightarrow> host \<Rightarrow> jsstring \<Rightarrow> jsstring \<Rightarrow> int \<Rightarrow> (error + unit) \<times> host" where
  "dispatchAppend dp h key txt now =
     appendRecentSearchesStore dp h key \<lparr>text = txt, timestamp = DateValue now\<rparr>"

subsection \<open>Notions used in the statements\<close>

text \<open>The time values a \<open>Date\<close> can hold: those that \<open>TimeClip\<close> lets through.\<close>

definition in_time_range :: "int \<Rightarrow> bool" where
  "in_time_range t = (\<bar>t\<bar> \<le> 8640000000000000)"

text \<open>
  What ECMAScript requires of every engine's \<open>Date.parse\<close> at the strings that
  \<open>toISOString\<close> produces: for a Date \<open>x\<close> whose time value is in range,
  \<open>Date.parse(x.toISOString())\<close> is \<open>x.valueOf()\<close>.
\<close>

definition reads_toISOString :: "(jsstring \<Rightarrow> int option) \<Rightarrow> bool" where
  "reads_toISOString dp = (\<forall>t. in_time_range t \<longrightarrow> dp (toISOString t) = Some t)"

text \<open>The JSON value that \<open>JSON.stringify\<close> writes for one recent search.\<close>

definition json_of_search :: "RecentSearch \<Rightarrow> json" where
  "json_of_search r =
     JObject [((str ''text''), JString (text r)),
              ((str ''timestamp''), case toJSON (timestamp r) of None \<Rightarrow> JNull | Some s \<Rightarrow> JString s)]"

text \<open>
  The entry an array element stands for: an object whose \<open>text\<close> member is a non-empty
  string and whose \<open>timestamp\<close> member is a non-empty string gives an entry, with the
  timestamp string handed to \<open>new Date\<close>; anything else gives none.
\<close>

definition search_of :: "(jsstring \<Rightarrow> int option) \<Rightarrow> json \<Rightarrow> RecentSearch option" where
  "search_of dp r =
     (case r of
        JObject kvs \<Rightarrow>
          (case (map_of (rev kvs) (str ''text''), map_of (rev kvs) (str ''timestamp'')) of
             (Some (JString s), Some (JString ts)) \<Rightarrow>
               if s \<noteq> [] \<and> ts \<noteq> [] then Some \<lparr>text = s, timestamp = new_Date dp ts\<rparr> else None
           | _ \<Rightarrow> None)
      | _ \<Rightarrow> None)"

text \<open>A \<open>Date\<close> object's time value is \<open>NaN\<close> or within the time range.\<close>

definition valid_Date :: "Date \<Rightarrow> bool" where
  "valid_Date d = (case d of InvalidDate \<Rightarrow> True | DateValue t \<Rightarrow> in_time_range t)"

text \<open>A host on which no call fails, holding the payloads \<open>m\<close>.\<close>

definition host_with :: "(jsstring \<rightharpoonup> LocalStorageValue) \<Rightarrow> host" where
  "host_with m = \<lparr>items = m, get_fails = False, set_fails = False, remove_fails = False\<rparr>"

text \<open>A payload parses as a collection when \<open>JSON.parse\<close> makes an array of it.\<close>

definition parses_as_collection :: "jsstring \<Rightarrow> bool" where
  "parses_as_collection p = (case JSON_parse p of Inr (JArray js) \<Rightarrow> True | _ \<Rightarrow> False)"

text \<open>
  Successive appends under one key, each awaited before the next: a call is the text
  and the clock reading of its \<open>new Date()\<close>.
\<close>

fun appends :: "(jsstring \<Rightarrow> int option) \<Rightarrow> host \<Rightarrow> jsstring \<Rightarrow> (jsstring \<times> int) list \<Rightarrow> host" where
  "appends dp h key [] = h"
| "appends dp h key ((txt, now) # calls) = appends dp (snd (dispatchAppend dp h key txt now)) key calls"

text \<open>The entry that a call of \<open>dispatchAppend\<close> creates.\<close>

definition entry_of_call :: "jsstring \<times> int \<Rightarrow> RecentSearch" where
  "entry_of_call c = \<lparr>text = fst c, timestamp = DateValue (snd c)\<rparr>"

text \<open>A sample entry, for the examples.\<close>

definition sample_search :: RecentSearch where
  "sample_search = \<lparr>text = (str ''q''), timestamp = DateValue 1609459200000\<rparr>"

text \<open>Twenty-one calls with the texts \<open>a\<close>, \<open>aa\<close>, \<open>aaa\<close> and so on, one millisecond apart.\<close>

definition sample_calls :: "(jsstring \<times> int) list" where
  "sample_calls = map (\<lambda>n. (replicate (Suc n) (U (CHR ''a'')), 1709210096789 + int n)) [0..<21]"

section \<open>Facts about the run time\<close>

subsection \<open>The parser consumes what it reads\<close>

lemma parse_frac_length: "parse_frac cs = Some (fs, r) \<Longrightarrow> length r \<le> length cs"
proof (cases cs)
  case Nil
  then show "parse_frac cs = Some (fs, r) \<Longrightarrow> length r \<le> length cs"
    by (simp add: parse_frac_def)
next
  case (Cons c r0)
  then show "parse_frac cs = Some (fs, r) \<Longrightarrow> length r \<le> length cs"
    using length_dropWhile_le [of is_digit r0]
    by (auto simp: parse_frac_def split: if_splits)
qed

lemma parse_exp_length:
  assumes a: "parse_exp cs = Some (e, r)"
  shows "length r \<le> length cs"
proof (cases cs)
  case Nil
  with a show ?thesis by (simp add: parse_exp_def)
next
  case (Cons c r0)
  show ?thesis
  proof (cases "c = U (CHR ''e'') \<or> c = U (CHR ''E'')")
    case False
    with a Cons show ?thesis by (auto simp: parse_exp_def)
  next
    case True
    define r1 where "r1 = (case r0 of [] \<Rightarrow> r0 | s # r' \<Rightarrow>
        if s = U (CHR ''-'') then r' else if s = U (CHR ''+'') then r' else r0)"
    have "length r1 \<le> length r0"
      by (auto simp: r1_def split: list.splits)
    moreover have "r = dropWhile is_digit r1"
      using a Cons True
      by (auto simp: parse_exp_def r1_def Let_def split: list.splits if_splits)
    ultimately show ?thesis
      using length_dropWhile_le [of is_digit r1] Cons by simp
  qed
qed

lemma parse_number_length:
  assumes "parse_number cs = Some (v, r)"
  shows "length r < length cs"
proof -
  define cs1 where "cs1 = (case cs of [] \<Rightarrow> cs | c # r \<Rightarrow> if c = U (CHR ''-'') then r else cs)"
  have le: "length cs1 \<le> length cs"
    by (auto simp: cs1_def split: list.splits)
  have unfold: "parse_number cs =
      (if takeWhile is_digit cs1 = []
          \<or> (1 < length (takeWhile is_digit cs1) \<and> hd (takeWhile is_digit cs1) = U (CHR ''0''))
       then None
       else (case parse_frac (dropWhile is_digit cs1) of
               None \<Rightarrow> None
             | Some (fs, cs2) \<Rightarrow>
                 (case parse_exp cs2 of
                    None \<Rightarrow> None
                  | Some (e, cs3) \<Rightarrow>
                      Some (JNumber ((if cs1 \<noteq> cs then - 1 else 1)
                                       * int (dec (takeWhile is_digit cs1 @ fs)))
                                    (e - int (length fs)), cs3))))"
    by (cases cs) (auto simp: parse_number_def cs1_def Let_def split: option.splits)
  from assms obtain fs cs2 e where
      ne: "takeWhile is_digit cs1 \<noteq> []"
      and f: "parse_frac (dropWhile is_digit cs1) = Some (fs, cs2)"
      and x: "parse_exp cs2 = Some (e, r)"
    unfolding unfold by (auto split: if_splits option.splits)
  have "length (dropWhile is_digit cs1) < length cs1"
    using ne takeWhile_dropWhile_id [of is_digit cs1]
    by (metis add_diff_cancel_right' diff_is_0_eq' length_append length_greater_0_conv
          linorder_not_less zero_less_diff)
  then show ?thesis
    using parse_frac_length [OF f] parse_exp_length [OF x] le by linarith
qed

lemma parse_progress:
  "(\<forall>v r. parse_value cs = Some (v, r) \<longrightarrow> length r < length cs)"
  "(\<forall>vs r. parse_elements cs = Some (vs, r) \<longrightarrow> length r < length cs)"
  "(\<forall>ms r. parse_members cs = Some (ms, r) \<longrightarrow> length r < length cs)"
proof (induction cs rule: parse_value_parse_elements_parse_members.induct)
  case (1 cs)
  show ?case
  proof (intro allI impI)
    fix v r assume a: "parse_value cs = Some (v, r)"
    then obtain c r0 where c: "skip_ws cs = c # r0"
      by (subst (asm) parse_value.simps) (auto split: list.splits)
    have l0: "length r0 < length cs"
      using c by (rule skip_ws_Cons_length)
    show "length r < length cs"
    proof (cases "c = U (CHR ''['')")
      case True
      with a c obtain d r' where d: "skip_ws r0 = d # r'"
        by (subst (asm) parse_value.simps) (auto split: list.splits)
      show ?thesis
      proof (cases "d = U (CHR '']'')")
        case True
        with a c d \<open>c = U (CHR ''['')\<close> have "r = r'"
          by (subst (asm) parse_value.simps) auto
        then show ?thesis using skip_ws_Cons_length [OF d] l0 by simp
      next
        case False
        with a c d \<open>c = U (CHR ''['')\<close> obtain vs where "parse_elements r0 = Some (vs, r)"
          by (subst (asm) parse_value.simps) auto
        then have "length r < length r0"
          using "1.IH"(1) [OF c \<open>c = U (CHR ''['')\<close> d False] by blast
        then show ?thesis using l0 by simp
      qed
    next
      case nb: False
      show ?thesis
      proof (cases "c = U (CHR ''{'')")
        case True
        with a c nb obtain d r' where d: "skip_ws r0 = d # r'"
          by (subst (asm) parse_value.simps) (auto split: list.splits)
        show ?thesis
        proof (cases "d = U (CHR ''}'')")
          case True
          with a c d nb \<open>c = U (CHR ''{'')\<close> have "r = r'"
            by (subst (asm) parse_value.simps) auto
          then show ?thesis using skip_ws_Cons_length [OF d] l0 by simp
        next
          case False
          with a c d nb \<open>c = U (CHR ''{'')\<close> obtain ms where "parse_members r0 = Some (ms, r)"
            by (subst (asm) parse_value.simps) auto
          then have "length r < length r0"
            using "1.IH"(2) [OF c nb \<open>c = U (CHR ''{'')\<close> d False] by blast
          then show ?thesis using l0 by simp
        qed
      next
        case no: False
        have "length r \<le> length r0"
        proof (cases "c = U (CHR 0x22)")
          case True
          with a c nb no obtain s where "parse_chars r0 = Some (s, r)"
            by (subst (asm) parse_value.simps) auto
          then show ?thesis using parse_chars_length by fastforce
        next
          case False
          with a c nb no
          have "r = drop 3 r0 \<or> r = drop 4 r0 \<or> (\<exists>w. parse_number (c # r0) = Some (w, r))"
            by (subst (asm) parse_value.simps) (auto split: if_splits)
          then show ?thesis
            using parse_number_length [of "c # r0" _ r] by auto
        qed
        then show ?thesis using l0 by simp
      qed
    qed
  qed
next
  case (2 cs)
  show ?case
  proof (intro allI impI)
    fix vs r assume a: "parse_elements cs = Some (vs, r)"
    then obtain v r0 where v: "parse_value cs = Some (v, r0)"
      by (subst (asm) parse_elements.simps) (auto split: option.splits)
    then have l0: "length r0 < length cs"
      using "2.IH"(1) by blast
    from a v obtain c r' where c: "skip_ws r0 = c # r'"
      by (subst (asm) parse_elements.simps) (auto split: list.splits)
    have l1: "length r' < length r0"
      using c by (rule skip_ws_Cons_length)
    show "length r < length cs"
    proof (cases "c = U (CHR '','')")
      case True
      with l0 l1 have g: "c = U (CHR '','') \<and> length r' < length cs" by simp
      with a v c obtain ws where "parse_elements r' = Some (ws, r)"
        by (subst (asm) parse_elements.simps) auto
      then have "length r < length r'"
        using "2.IH"(2) [OF v refl c g] by blast
      then show ?thesis using l0 l1 by simp
    next
      case False
      with a v c have "r = r'"
        by (subst (asm) parse_elements.simps) (auto split: if_splits)
      then show ?thesis using l0 l1 by simp
    qed
  qed
next
  case (3 cs)
  show ?case
  proof (intro allI impI)
    fix ms r assume a: "parse_members cs = Some (ms, r)"
    then obtain q r0 where q: "skip_ws cs = q # r0" "q = U (CHR 0x22)"
      by (subst (asm) parse_members.simps) (auto split: list.splits if_splits)
    with a obtain k r1 where k: "parse_chars r0 = Some (k, r1)"
      by (subst (asm) parse_members.simps) (auto split: option.splits)
    with a q obtain c r2 where c: "skip_ws r1 = c # r2" "c = U (CHR '':'')"
      by (subst (asm) parse_members.simps) (auto split: list.splits if_splits)
    with a q k obtain v r3 where v: "parse_value r2 = Some (v, r3)"
      by (subst (asm) parse_members.simps) (auto split: option.splits)
    with a q k c obtain d r4 where d: "skip_ws r3 = d # r4"
      by (subst (asm) parse_members.simps) (auto split: list.splits)
    have l3: "length r3 < length r2"
      using "3.IH"(1) [OF q(1) q(2) k refl c(1) c(2)] v by blast
    have l: "length r2 < length cs"
      using skip_ws_Cons_length [OF q(1)] parse_chars_length [OF k] skip_ws_Cons_length [OF c(1)]
      by simp
    have l4: "length r4 < length r3"
      using d by (rule skip_ws_Cons_length)
    show "length r < length cs"
    proof (cases "d = U (CHR '','')")
      case True
      with l l3 l4 have g: "d = U (CHR '','') \<and> length r4 < length cs" by simp
      with a q k c v d obtain ws where w: "parse_members r4 = Some (ws, r)"
        by (subst (asm) parse_members.simps) auto
      have "length r < length r4"
        using "3.IH"(2) [OF q(1) q(2) k refl c(1) c(2) v refl d g] w by blast
      then show ?thesis using l l3 l4 by simp
    next
      case False
      with a q k c v d have "r = r4"
        by (subst (asm) parse_members.simps) (auto split: if_splits)
      then show ?thesis using l l3 l4 by simp
    qed
  qed
qed


text \<open>So the two length tests of the parser never fail: it is the parser without them.\<close>

lemma parse_elements_test_free:
  "parse_elements cs =
     (case parse_value cs of
        None \<Rightarrow> None
      | Some (v, r) \<Rightarrow>
          (case skip_ws r of
             [] \<Rightarrow> None
           | c # r' \<Rightarrow>
               if c = U (CHR '','') then map_option (apfst ((#) v)) (parse_elements r')
               else if c = U (CHR '']'') then Some ([v], r')
               else None))"
proof (cases "parse_value cs")
  case None
  then show ?thesis by (subst parse_elements.simps) simp
next
  case (Some p)
  obtain v r where p: "p = (v, r)" by (cases p)
  have l: "length r < length cs"
    using parse_progress(1) [of cs] Some p by blast
  show ?thesis
  proof (cases "skip_ws r")
    case Nil
    with Some p show ?thesis by (subst parse_elements.simps) simp
  next
    case (Cons c r')
    then have "length r' < length cs"
      using skip_ws_Cons_length [OF Cons] l by simp
    with Some p Cons show ?thesis by (subst parse_elements.simps) simp
  qed
qed

lemma parse_members_test_free:
  "parse_members cs =
     (case skip_ws cs of
        [] \<Rightarrow> None
      | q # r \<Rightarrow>
          if q = U (CHR 0x22) then
            (case parse_chars r of
               None \<Rightarrow> None
             | Some (k, r1) \<Rightarrow>
                 (case skip_ws r1 of
                    [] \<Rightarrow> None
                  | c # r2 \<Rightarrow>
                      if c = U (CHR '':'') then
                        (case parse_value r2 of
                           None \<Rightarrow> None
                         | Some (v, r3) \<Rightarrow>
                             (case skip_ws r3 of
                                [] \<Rightarrow> None
                              | d # r4 \<Rightarrow>
                                  if d = U (CHR '','') then
                                    map_option (apfst ((#) (k, v))) (parse_members r4)
                                  else if d = U (CHR ''}'') then Some ([(k, v)], r4)
                                  else None))
                      else None))
          else None)"
proof -
  have "length r4 < length cs"
    if "skip_ws cs = q # r" "parse_chars r = Some (k, r1)" "skip_ws r1 = c # r2"
      "parse_value r2 = Some (v, r3)" "skip_ws r3 = d # r4" for q r k r1 c r2 v r3 d r4
    using skip_ws_Cons_length [OF that(1)] parse_chars_length [OF that(2)]
      skip_ws_Cons_length [OF that(3)] parse_progress(1) [of r2] that(4)
      skip_ws_Cons_length [OF that(5)]
    by fastforce
  then show ?thesis
    by (subst parse_members.simps) (auto split: list.splits option.splits)
qed

subsection \<open>\<open>JSON.parse\<close> reads back what \<open>JSON.stringify\<close> wrote\<close>

lemma hex_val_hex_digit: "k < 16 \<Longrightarrow> hex_val (hex_digit k) = Some k"
  by (auto simp: hex_val_def hex_digit_def Let_def)

lemma hex4_UnicodeEscape:
  assumes "c < 65536"
  shows "hex4 (hex_digit (c div 4096 mod 16)) (hex_digit (c div 256 mod 16))
           (hex_digit (c div 16 mod 16)) (hex_digit (c mod 16)) = Some c"
proof -
  have d: "hex_val (hex_digit (c div 4096 mod 16)) = Some (c div 4096 mod 16)"
    "hex_val (hex_digit (c div 256 mod 16)) = Some (c div 256 mod 16)"
    "hex_val (hex_digit (c div 16 mod 16)) = Some (c div 16 mod 16)"
    "hex_val (hex_digit (c mod 16)) = Some (c mod 16)"
    by (simp_all add: hex_val_hex_digit)
  have z: "c div 4096 mod 16 = c div 4096"
    using assms by (simp add: less_mult_imp_div_less)
  have y: "c div 4096 * 16 + c div 256 mod 16 = c div 256"
    using div_mult_mod_eq [of "c div 256" 16] div_mult2_eq [of c 256 16] by simp
  have x: "c div 256 * 16 + c div 16 mod 16 = c div 16"
    using div_mult_mod_eq [of "c div 16" 16] div_mult2_eq [of c 16 16] by simp
  have w: "c div 16 * 16 + c mod 16 = c"
    by (rule div_mult_mod_eq)
  have v: "((c div 4096 mod 16 * 16 + c div 256 mod 16) * 16 + c div 16 mod 16) * 16 + c mod 16 = c"
    unfolding z y x w ..
  show ?thesis
    unfolding hex4_def d by (simp only: prod.case option.case v)
qed

lemma parse_chars_UnicodeEscape:
  assumes "c < 65536"
  shows "parse_chars (UnicodeEscape c @ cs) = map_option (apfst ((#) c)) (parse_chars cs)"
  using hex4_UnicodeEscape [OF assms] by (simp add: UnicodeEscape_def)

lemma parse_chars_escape_char:
  "parse_chars (escape_char c @ cs) = map_option (apfst ((#) c)) (parse_chars cs)"
proof (cases "c < 32 \<or> is_lead c \<or> is_trail c")
  case True
  then have "c < 65536"
    by (auto simp: is_lead_def is_trail_def)
  then show ?thesis
    using True by (auto simp: escape_char_def unescape_def parse_chars_UnicodeEscape)
next
  case False
  then show ?thesis
    by (auto simp: escape_char_def unescape_def)
qed

lemma parse_chars_quoted [simplified]:
  "parse_chars (quote_units s @ U (CHR 0x22) # cs) = Some (s, cs)"
proof (induction s rule: quote_units.induct)
  case 1
  show ?case by simp
next
  case (2 c)
  show ?case by (simp add: parse_chars_escape_char)
next
  case (3 c d ds)
  show ?case
  proof (cases "is_lead c \<and> is_trail d")
    case True
    then have q: "quote_units (c # d # ds) = c # d # quote_units ds"
      by simp
    have "parse_chars (quote_units ds @ U (CHR 0x22) # cs) = Some (ds, cs)"
      using 3(1) True by simp
    moreover have "c \<noteq> 34" "c \<noteq> 92" "\<not> c < 32" "d \<noteq> 34" "d \<noteq> 92" "\<not> d < 32"
      using True by (simp_all add: is_lead_def is_trail_def)
    ultimately show ?thesis
      unfolding q by simp
  next
    case False
    then have q: "quote_units (c # d # ds) = escape_char c @ quote_units (d # ds)"
      by auto
    have "parse_chars (quote_units (d # ds) @ U (CHR 0x22) # cs) = Some (d # ds, cs)"
      using 3(2) False by simp
    then show ?thesis
      unfolding q by (simp add: parse_chars_escape_char del: quote_units.simps)
  qed
qed

text \<open>
  A surrogate pair is written as it is; a surrogate without its partner and a control
  character without a short form are written as escapes.
\<close>

lemma QuoteJSONString_escapes:
  "QuoteJSONString [0xD83D, 0xDE00] = [0x22, 0xD83D, 0xDE00, 0x22]"
  "QuoteJSONString [0xDE00, 0xD83D]
     = 0x22 # 0x5C # str ''ude00'' @ 0x5C # str ''ud83d'' @ [0x22]"
  "QuoteJSONString [0x0B, 0x416] = 0x22 # 0x5C # str ''u000b'' @ [0x416, 0x22]"
  by code_simp+

lemma skip_ws_no_ws: "\<not> is_ws c \<Longrightarrow> skip_ws (c # cs) = c # cs"
  by (simp add: skip_ws_def)

lemma parse_value_quoted:
  "parse_value (QuoteJSONString s @ cs) = Some (JString s, cs)"
  by (subst parse_value.simps)
     (simp add: QuoteJSONString_def skip_ws_no_ws is_ws_def parse_chars_quoted)

lemma parse_value_null [simplified]:
  "parse_value (U (CHR ''n'') # U (CHR ''u'') # U (CHR ''l'') # U (CHR ''l'') # cs) = Some (JNull, cs)"
  by (subst parse_value.simps) (simp add: skip_ws_no_ws is_ws_def)

lemma parse_members_timestamp:
  \<open>parse_members ((str ''"timestamp":'') @ (case toJSON d of None \<Rightarrow> (str ''null'') | Some s \<Rightarrow> QuoteJSONString s) @ (str ''}'') @ cs)
     = Some ([((str ''timestamp''), case toJSON d of None \<Rightarrow> JNull | Some s \<Rightarrow> JString s)], cs)\<close>
  by (subst parse_members.simps)
     (simp add: skip_ws_no_ws is_ws_def parse_value_quoted parse_value_null unescape_def
        split: option.splits)

lemma parse_value_search:
  "parse_value (stringify_search r @ cs) = Some (json_of_search r, cs)"
  apply (subst parse_value.simps)
  apply (simp add: stringify_search_def skip_ws_no_ws is_ws_def)
  apply (subst parse_members.simps)
  apply (simp add: skip_ws_no_ws is_ws_def parse_value_quoted json_of_search_def)
  apply (rule parse_members_timestamp [simplified])
  done


text \<open>
  In the next three statements the code units stand as numbers: \<open>123\<close> is the opening
  brace, \<open>44\<close> the comma, \<open>91\<close> and \<open>93\<close> the two brackets.
\<close>

lemma stringify_search_first:
  "\<exists>cs. stringify_search r = 123 # cs"
  by (simp add: stringify_search_def)

lemma parse_elements_searches:
  "parse_elements (join_comma (map stringify_search (r # rs)) @ 93 # cs)
     = Some (map json_of_search (r # rs), cs)"
proof (induction rs arbitrary: r)
  case Nil
  show ?case
    by (subst parse_elements.simps) (simp add: parse_value_search skip_ws_no_ws is_ws_def)
next
  case (Cons r' rs)
  define body where "body = join_comma (map stringify_search (r' # rs))"
  have ih: "parse_elements (body @ 93 # cs) = Some (map json_of_search (r' # rs), cs)"
    unfolding body_def by (rule Cons.IH)
  have "parse_elements (stringify_search r @ 44 # body @ 93 # cs)
          = Some (json_of_search r # map json_of_search (r' # rs), cs)"
    by (subst parse_elements.simps)
       (simp add: parse_value_search skip_ws_no_ws is_ws_def ih)
  then show ?case by (simp add: body_def)
qed

lemma JSON_parse_stringify:
  "JSON_parse (JSON_stringify rs) = Inr (JArray (map json_of_search rs))"
proof (cases rs)
  case Nil
  then show ?thesis
    by (simp add: JSON_parse_def JSON_stringify_def)
       (subst parse_value.simps, simp add: skip_ws_no_ws is_ws_def skip_ws_def)
next
  case (Cons r rs')
  define body where "body = join_comma (map stringify_search (r # rs'))"
  obtain cs where cs: "stringify_search r = 123 # cs"
    using stringify_search_first by blast
  have "\<exists>cs'. body @ [93] = 123 # cs'"
    unfolding body_def by (cases rs') (simp_all add: cs)
  then obtain cs' where cs': "body @ [93] = 123 # cs'"
    by blast
  have pe: "parse_elements (body @ [93]) = Some (map json_of_search (r # rs'), [])"
    unfolding body_def by (rule parse_elements_searches)
  have pv: "parse_value (91 # body @ [93]) = Some (JArray (map json_of_search rs), [])"
    apply (subst parse_value.simps)
    apply (simp add: skip_ws_no_ws is_ws_def cs')
    apply (simp add: cs' [symmetric] pe Cons)
    done
  have "JSON_stringify rs = 91 # body @ [93]"
    by (simp add: JSON_stringify_def Cons body_def)
  then show ?thesis
    using pv by (simp add: JSON_parse_def skip_ws_def)
qed

subsection \<open>\<open>Date_parse_ISO\<close> reads back what \<open>toISOString\<close> wrote\<close>

lemma DayFromYear_1970: "DayFromYear 1970 = 0"
  by (simp add: DayFromYear_def)

lemma DayFromYear_prev: "DayFromYear (y - 1) = DayFromYear y - DaysInYear (y - 1)"
  using DayFromYear_next [of "y - 1"] by simp

lemma DayFromYear_upper: "1970 \<le> y \<Longrightarrow> DayFromYear y \<le> 366 * (y - 1970)"
proof (induction y rule: int_ge_induct)
  case base
  then show ?case by (simp add: DayFromYear_1970)
next
  case (step i)
  then show ?case
    using DaysInYear_bounds(2) [of i] by (simp add: DayFromYear_next)
qed

lemma DayFromYear_lower: "1970 \<le> y \<Longrightarrow> 365 * (y - 1970) \<le> DayFromYear y"
proof (induction y rule: int_ge_induct)
  case base
  then show ?case by (simp add: DayFromYear_1970)
next
  case (step i)
  then show ?case
    using DaysInYear_bounds(1) [of i] by (simp add: DayFromYear_next)
qed

lemma DayFromYear_before: "y \<le> 1970 \<Longrightarrow> DayFromYear y \<le> 365 * (y - 1970)"
proof (induction y rule: int_le_induct)
  case base
  then show ?case by (simp add: DayFromYear_1970)
next
  case (step i)
  then show ?case
    using DaysInYear_bounds(1) [of "i - 1"] by (simp add: DayFromYear_prev)
qed

lemma year_search_bracket:
  "DayFromYear y \<le> d \<Longrightarrow>
   DayFromYear (year_search d y) \<le> d \<and> d < DayFromYear (year_search d y + 1)"
proof (induction d y rule: year_search.induct)
  case (1 d y)
  show ?case
  proof (cases "DayFromYear (y + 1) \<le> d")
    case True
    with 1 show ?thesis by (subst (1 2) year_search.simps) simp
  next
    case False
    with 1 show ?thesis by (subst (1 2) year_search.simps) simp
  qed
qed

lemma year_start_le:
  "DayFromYear (1970 + (if 0 \<le> d then d div 366 else d div 365)) \<le> d"
proof (cases "0 \<le> d")
  case True
  then have "0 \<le> d div 366" by simp
  then have "DayFromYear (1970 + d div 366) \<le> 366 * (d div 366)"
    using DayFromYear_upper [of "1970 + d div 366"] by simp
  also have "\<dots> \<le> d"
    using mult_div_mod_eq [of 366 d] pos_mod_sign [of 366 d] by linarith
  finally show ?thesis using True by simp
next
  case False
  then have "d div 365 \<le> 0"
    by (simp add: div_nonpos_pos_le0)
  then have "DayFromYear (1970 + d div 365) \<le> 365 * (d div 365)"
    using DayFromYear_before [of "1970 + d div 365"] by simp
  also have "\<dots> \<le> d"
    using mult_div_mod_eq [of 365 d] pos_mod_sign [of 365 d] by linarith
  finally show ?thesis using False by simp
qed

lemma YearFromTime_bracket:
  "DayFromYear (YearFromTime t) \<le> Day t \<and> Day t < DayFromYear (YearFromTime t + 1)"
  unfolding YearFromTime_def by (rule year_search_bracket) (rule year_start_le)

lemma DayWithinYear_bounds:
  "0 \<le> DayWithinYear t" "DayWithinYear t < 365 + InLeapYear t"
proof -
  show "0 \<le> DayWithinYear t"
    using YearFromTime_bracket [of t] by (simp add: DayWithinYear_def)
  have "DayWithinYear t < DaysInYear (YearFromTime t)"
    using YearFromTime_bracket [of t] by (simp add: DayWithinYear_def DayFromYear_next)
  then show "DayWithinYear t < 365 + InLeapYear t"
    using DaysInYear_bounds [of "YearFromTime t"] by (simp add: InLeapYear_def split: if_splits)
qed

lemma InLeapYear_cases: "InLeapYear t = 0 \<or> InLeapYear t = 1"
  by (simp add: InLeapYear_def)

lemma MonthFromTime_bounds: "0 \<le> MonthFromTime t" "MonthFromTime t \<le> 11"
  by (simp_all add: MonthFromTime_def Let_def)

lemma DateFromTime_bounds: "1 \<le> DateFromTime t" "DateFromTime t \<le> 31"
  using DayWithinYear_bounds [of t] InLeapYear_cases [of t]
  by (auto simp: DateFromTime_def MonthFromTime_def month_start_def Let_def)

lemma MakeDay_fields: "MakeDay (YearFromTime t) (MonthFromTime t) (DateFromTime t) = Day t"
  by (simp add: MakeDay_def DateFromTime_def DayWithinYear_def InLeapYear_def)


lemma TimeWithinDay_bounds: "0 \<le> TimeWithinDay t" "TimeWithinDay t < 86400000"
  by (simp_all add: TimeWithinDay_def msPerDay_def)

lemma time_fields_bounds:
  "0 \<le> HourFromTime t" "HourFromTime t \<le> 23" "0 \<le> MinFromTime t" "MinFromTime t \<le> 59"
  "0 \<le> SecFromTime t" "SecFromTime t \<le> 59" "0 \<le> msFromTime t" "msFromTime t \<le> 999"
proof -
  show "0 \<le> HourFromTime t"
    using TimeWithinDay_bounds(1) [of t] by (simp add: HourFromTime_def pos_imp_zdiv_nonneg_iff)
  show "HourFromTime t \<le> 23"
    using TimeWithinDay_bounds(2) [of t] zdiv_mono1 [of "TimeWithinDay t" 86399999 3600000]
    by (simp add: HourFromTime_def)
  show "0 \<le> MinFromTime t" by (simp add: MinFromTime_def)
  have "(TimeWithinDay t div 60000) mod 60 < 60" by simp
  then show "MinFromTime t \<le> 59" unfolding MinFromTime_def by linarith
  show "0 \<le> SecFromTime t" by (simp add: SecFromTime_def)
  have "(TimeWithinDay t div 1000) mod 60 < 60" by simp
  then show "SecFromTime t \<le> 59" unfolding SecFromTime_def by linarith
  show "0 \<le> msFromTime t" by (simp add: msFromTime_def)
  have "TimeWithinDay t mod 1000 < 1000" by simp
  then show "msFromTime t \<le> 999" unfolding msFromTime_def by linarith
qed

lemma MakeTime_fields:
  "MakeTime (HourFromTime t) (MinFromTime t) (SecFromTime t) (msFromTime t) = TimeWithinDay t"
proof -
  define w where "w = TimeWithinDay t"
  have a: "w = 1000 * (w div 1000) + w mod 1000" by simp
  have b: "w div 1000 = 60 * (w div 1000 div 60) + w div 1000 mod 60" by simp
  have b': "w div 1000 div 60 = w div 60000"
    using zdiv_zmult2_eq [of 60 w 1000] by simp
  have c: "w div 60000 = 60 * (w div 60000 div 60) + w div 60000 mod 60" by simp
  have c': "w div 60000 div 60 = w div 3600000"
    using zdiv_zmult2_eq [of 60 w 60000] by simp
  show ?thesis
    unfolding MakeTime_def HourFromTime_def MinFromTime_def SecFromTime_def msFromTime_def
      w_def [symmetric]
    using a b c unfolding b' c' by linarith
qed

lemma MakeDate_fields:
  "MakeDate (MakeDay (YearFromTime t) (MonthFromTime t) (DateFromTime t))
     (MakeTime (HourFromTime t) (MinFromTime t) (SecFromTime t) (msFromTime t)) = t"
  by (simp add: MakeDay_fields MakeTime_fields MakeDate_def Day_def TimeWithinDay_def)

lemma length_pad: "length (pad n k) = n"
  by (induction n k rule: pad.induct) simp_all

lemma is_digit_char_of: "(d::nat) < 10 \<Longrightarrow> is_digit (48 + d)"
  by (simp add: is_digit_def)

lemma digit_val_char_of: "(d::nat) < 10 \<Longrightarrow> digit_val (48 + d) = d"
  by (simp add: digit_val_def)

lemma pad_digits: "list_all is_digit (pad n k)"
  by (induction n k rule: pad.induct) (simp_all add: is_digit_char_of)

lemma dec_snoc: "dec (cs @ [c]) = 10 * dec cs + digit_val c"
  by (simp add: dec_def)

lemma dec_pad: "dec (pad n k) = k mod 10 ^ n"
proof (induction n k rule: pad.induct)
  case (1 k)
  then show ?case by (simp add: dec_def)
next
  case (2 n k)
  have "k mod (10 * 10 ^ n) = 10 * (k div 10 mod 10 ^ n) + k mod 10"
    by (simp add: mod_mult2_eq)
  with 2 show ?case
    by (simp add: dec_snoc digit_val_char_of)
qed

lemma digits_pad: "k < 10 ^ n \<Longrightarrow> digits n (pad n k @ cs) = Some (int k, cs)"
  by (simp add: digits_def length_pad pad_digits dec_pad)

lemma digits_pad_int:
  "0 \<le> v \<Longrightarrow> v < 10 ^ n \<Longrightarrow> digits n (pad n (nat v) @ cs) = Some (v, cs)"
  using digits_pad [of "nat v" n cs] by (simp add: nat_less_iff)


lemma pad_first_digit:
  assumes "0 < n"
  shows "\<exists>c r. pad n k = c # r \<and> is_digit c"
proof -
  have "length (pad n k) = n" by (rule length_pad)
  with assms obtain c r where cr: "pad n k = c # r"
    by (cases "pad n k") simp_all
  moreover have "is_digit c"
    using pad_digits [of n k] unfolding cr by simp
  ultimately show ?thesis by blast
qed

lemma parse_year_iso:
  assumes "- 999999 \<le> y" "y \<le> 999999"
  shows "parse_year (iso_year y @ cs) = Some (y, cs)"
proof (cases "0 \<le> y \<and> y \<le> 9999")
  case True
  obtain c r where cr: "pad 4 (nat y) = c # r" "is_digit c"
    using pad_first_digit [of 4 "nat y"] by auto
  have "c \<noteq> U (CHR ''+'')" "c \<noteq> U (CHR ''-'')"
    using cr(2) by (auto simp: is_digit_def)
  moreover have "digits 4 (pad 4 (nat y) @ cs) = Some (y, cs)"
    using True by (intro digits_pad_int) simp_all
  ultimately show ?thesis
    using True cr(1) by (simp add: parse_year_def iso_year_def)
next
  case False
  show ?thesis
  proof (cases "y < 0")
    case True
    have "digits 6 (pad 6 (nat \<bar>y\<bar>) @ cs) = Some (\<bar>y\<bar>, cs)"
      using assms by (intro digits_pad_int) simp_all
    with True show ?thesis
      by (simp add: parse_year_def iso_year_def)
  next
    case pos: False
    have "digits 6 (pad 6 (nat \<bar>y\<bar>) @ cs) = Some (\<bar>y\<bar>, cs)"
      using assms by (intro digits_pad_int) simp_all
    with False pos show ?thesis
      by (simp add: parse_year_def iso_year_def)
  qed
qed

lemma opt_field_present:
  "0 \<le> v \<Longrightarrow> v < 10 ^ n \<Longrightarrow>
   opt_field sep n dflt (sep # pad n (nat v) @ cs) = Some (v, cs, True)"
  by (simp add: opt_field_def digits_pad_int)

lemma parse_date_iso:
  assumes "- 999999 \<le> y" "y \<le> 999999" "0 \<le> m" "m \<le> 99" "0 \<le> d" "d \<le> 99"
  shows "parse_date (iso_year y @ U (CHR ''-'') # pad 2 (nat m) @ U (CHR ''-'') # pad 2 (nat d) @ cs)
           = Some (y, m, d, cs)"
  using assms by (simp add: parse_date_def parse_year_iso opt_field_present)

lemma parse_time_iso:
  assumes "0 \<le> h" "h \<le> 23" "0 \<le> mi" "mi \<le> 59" "0 \<le> s" "s \<le> 59" "0 \<le> ms" "ms \<le> 999"
  shows "parse_time (pad 2 (nat h) @ U (CHR '':'') # pad 2 (nat mi) @ U (CHR '':'') # pad 2 (nat s)
                       @ U (CHR ''.'') # pad 3 (nat ms) @ cs)
           = Some (MakeTime h mi s ms, cs)"
  using assms by (simp add: parse_time_def digits_pad_int opt_field_present)

lemma Day_bounds:
  assumes "in_time_range t"
  shows "- 100000000 \<le> Day t" "Day t \<le> 100000000"
proof -
  have t: "- 8640000000000000 \<le> t" "t \<le> 8640000000000000"
    using assms by (simp_all add: in_time_range_def abs_le_iff)
  show "- 100000000 \<le> Day t"
    using zdiv_mono1 [of "- 8640000000000000" t 86400000] t(1)
    by (simp add: Day_def msPerDay_def)
  show "Day t \<le> 100000000"
    using zdiv_mono1 [of t 8640000000000000 86400000] t(2)
    by (simp add: Day_def msPerDay_def)
qed

lemma YearFromTime_bounds:
  assumes "in_time_range t"
  shows "- 999999 \<le> YearFromTime t" "YearFromTime t \<le> 999999"
proof -
  have b: "DayFromYear (YearFromTime t) \<le> Day t" "Day t < DayFromYear (YearFromTime t + 1)"
    using YearFromTime_bracket [of t] by simp_all
  note d = Day_bounds [OF assms]
  show "YearFromTime t \<le> 999999"
  proof (cases "1970 \<le> YearFromTime t")
    case True
    then show ?thesis
      using DayFromYear_lower [OF True] b d by simp
  next
    case False
    then show ?thesis by simp
  qed
  show "- 999999 \<le> YearFromTime t"
  proof (cases "YearFromTime t + 1 \<le> 1970")
    case True
    then show ?thesis
      using DayFromYear_before [OF True] b d by simp
  next
    case False
    then show ?thesis by simp
  qed
qed

lemma Date_parse_ISO_toISOString:
  assumes "in_time_range t"
  shows "Date_parse_ISO (toISOString t) = Some t"
proof -
  note y = YearFromTime_bounds [OF assms]
    and m = MonthFromTime_bounds [of t]
    and d = DateFromTime_bounds [of t]
    and f = time_fields_bounds [of t]
  have date: "parse_date (toISOString t) =
        Some (YearFromTime t, MonthFromTime t + 1, DateFromTime t,
              U (CHR ''T'') # pad 2 (nat (HourFromTime t)) @ U (CHR '':'') # pad 2 (nat (MinFromTime t))
                @ U (CHR '':'') # pad 2 (nat (SecFromTime t)) @ U (CHR ''.'') # pad 3 (nat (msFromTime t))
                @ (str ''Z''))"
    unfolding toISOString_def
    using parse_date_iso [OF y, of "MonthFromTime t + 1" "DateFromTime t"] m d
    by simp
  have time: "parse_time (pad 2 (nat (HourFromTime t)) @ U (CHR '':'') # pad 2 (nat (MinFromTime t))
                @ U (CHR '':'') # pad 2 (nat (SecFromTime t)) @ U (CHR ''.'') # pad 3 (nat (msFromTime t))
                @ (str ''Z''))
        = Some (MakeTime (HourFromTime t) (MinFromTime t) (SecFromTime t) (msFromTime t), (str ''Z''))"
    by (rule parse_time_iso [OF f])
  have zone: "parse_offset (str ''Z'') = Some 0"
    by (simp add: parse_offset_def)
  show ?thesis
    using assms m d time zone
    by (simp add: Date_parse_ISO_def date MakeDate_fields TimeClip_def in_time_range_def)
qed

text \<open>An offset is subtracted: one o'clock in the zone one hour east of UTC is midnight UTC.\<close>

lemma Date_parse_ISO_offset:
  "Date_parse_ISO (str ''2021-01-01T00:00:00+01:00'') = Some 1609455600000"
  "Date_parse_ISO (str ''2021-01-01T00:00:00Z'') = Some 1609459200000"
  "Date_parse_ISO (str ''2020-12-31T19:00:00.000-05:00'') = Some 1609459200000"
  "Date_parse_ISO (str ''2021-01-01'') = Some 1609459200000"
  "Date_parse_ISO (str ''not-a-date'') = None"
  by code_simp+

lemma toISOString_nonempty: "toISOString t \<noteq> []"
  by (simp add: toISOString_def)

lemma Date_parse_ISO_in_range: "Date_parse_ISO s = Some t \<Longrightarrow> in_time_range t"
  by (auto simp: Date_parse_ISO_def TimeClip_def in_time_range_def
           split: option.splits if_splits list.splits)

section \<open>Facts about the store\<close>

lemma getRecentSearches_loop_step:
  assumes "r \<noteq> JNull"
  shows "getRecentSearches_loop dp (r # rs) acc =
           getRecentSearches_loop dp rs (case search_of dp r of None \<Rightarrow> acc | Some x \<Rightarrow> acc @ [x])"
proof (cases r)
  case (JObject kvs)
  show ?thesis
  proof (cases "map_of (rev kvs) (str ''text'')")
    case None
    then show ?thesis
      by (simp add: JObject get_property_def or_undefined_def search_of_def truthy_def
            split: option.splits json.splits)
  next
    case (Some v)
    then show ?thesis
      by (cases v)
         (simp_all add: JObject get_property_def or_undefined_def search_of_def truthy_def
            split: option.splits json.splits)
  qed
qed (use assms in \<open>simp_all add: get_property_def or_undefined_def search_of_def\<close>)

lemma getRecentSearches_loop_eq:
  "JNull \<notin> set js \<Longrightarrow>
   getRecentSearches_loop dp js acc = Inr (acc @ List.map_filter (search_of dp) js)"
proof (induction js arbitrary: acc)
  case Nil
  then show ?case by (simp add: List.map_filter_simps)
next
  case (Cons r js)
  then have "r \<noteq> JNull" "JNull \<notin> set js" by auto
  then show ?case
    by (simp add: getRecentSearches_loop_step Cons.IH List.map_filter_simps
          del: getRecentSearches_loop.simps split: option.splits)
qed

lemma JSON_parse_empty: "JSON_parse [] = Inl SyntaxError"
  by (simp add: JSON_parse_def) (subst parse_value.simps, simp add: skip_ws_def)

lemma getRecentSearches_parsed:
  assumes "\<not> get_fails h" "items h key = Some (LSString p)" "JSON_parse p = Inr (JArray js)"
    and "JNull \<notin> set js"
  shows "getRecentSearches dp h key = Inr (Some (List.map_filter (search_of dp) js))"
proof -
  have "p \<noteq> []" using assms(3) JSON_parse_empty by auto
  then show ?thesis
    using assms
    by (simp add: getRecentSearches_def getRecentSearches_try_def getLocalStorageItem_def
          toString_def truthy_def getRecentSearches_loop_eq)
qed

lemma getRecentSearches_total: "\<exists>xs. getRecentSearches dp h key = Inr (Some xs)"
  by (simp add: getRecentSearches_def split: sum.splits option.splits)

lemma new_Date_valid: "valid_Date (new_Date dp s)"
  by (auto simp: new_Date_def valid_Date_def TimeClip_def in_time_range_def
        split: option.splits if_splits)

lemma new_Date_toISOString:
  "reads_toISOString dp \<Longrightarrow> in_time_range t \<Longrightarrow> new_Date dp (toISOString t) = DateValue t"
  by (simp add: new_Date_def reads_toISOString_def TimeClip_def in_time_range_def)

lemma reads_toISOString_Date_parse_ISO: "reads_toISOString Date_parse_ISO"
  by (simp add: reads_toISOString_def Date_parse_ISO_toISOString)

lemma search_of_valid:
  "search_of dp r = Some x \<Longrightarrow> text x \<noteq> [] \<and> valid_Date (timestamp x)"
  by (auto simp: search_of_def new_Date_valid split: json.splits option.splits if_splits)

lemma getRecentSearches_loop_null: "getRecentSearches_loop dp (JNull # rs) acc = Inl TypeError"
  by (simp add: get_property_def)

lemma getRecentSearches_loop_valid:
  assumes "getRecentSearches_loop dp js acc = Inr res"
    and "\<forall>x\<in>set acc. text x \<noteq> [] \<and> valid_Date (timestamp x)"
  shows "\<forall>x\<in>set res. text x \<noteq> [] \<and> valid_Date (timestamp x)"
  using assms
proof (induction js arbitrary: acc)
  case Nil
  then show ?case by simp
next
  case (Cons r js)
  show ?case
  proof (cases "r = JNull")
    case True
    with Cons.prems(1) show ?thesis
      by (simp add: getRecentSearches_loop_null del: getRecentSearches_loop.simps)
  next
    case False
    let ?acc = "case search_of dp r of None \<Rightarrow> acc | Some x \<Rightarrow> acc @ [x]"
    have "getRecentSearches_loop dp js ?acc = Inr res"
      using Cons.prems(1) getRecentSearches_loop_step [OF False] by simp
    moreover have "\<forall>x\<in>set ?acc. text x \<noteq> [] \<and> valid_Date (timestamp x)"
      using Cons.prems(2) search_of_valid [of dp r] by (auto split: option.splits)
    ultimately show ?thesis by (rule Cons.IH)
  qed
qed

lemma getRecentSearches_valid:
  assumes "getRecentSearches dp h key = Inr (Some xs)"
  shows "\<forall>x\<in>set xs. text x \<noteq> [] \<and> valid_Date (timestamp x)"
proof (cases "getRecentSearches_try dp h key")
  case (Inl e)
  with assms show ?thesis by (simp add: getRecentSearches_def)
next
  case (Inr res)
  show ?thesis
  proof (cases res)
    case None
    with Inr assms show ?thesis by (simp add: getRecentSearches_def)
  next
    case (Some ys)
    with Inr assms have xs: "ys = xs" by (simp add: getRecentSearches_def)
    from Inr Some have "ys = [] \<or> (\<exists>js. getRecentSearches_loop dp js [] = Inr ys)"
      by (auto simp: getRecentSearches_try_def split: sum.splits option.splits if_splits json.splits)
    then show ?thesis
      using getRecentSearches_loop_valid [of dp _ "[]" ys] xs by auto
  qed
qed

lemma search_of_json_of_search:
  assumes "reads_toISOString dp" and "valid_Date (timestamp r)"
  shows "search_of dp (json_of_search r)
           = (if text r \<noteq> [] \<and> timestamp r \<noteq> InvalidDate then Some r else None)"
proof (cases "timestamp r")
  case InvalidDate
  then show ?thesis
    by (simp add: search_of_def json_of_search_def toJSON_def)
next
  case (DateValue t)
  with assms(2) have "in_time_range t" by (simp add: valid_Date_def)
  then have "new_Date dp (toISOString t) = timestamp r"
    using DateValue by (simp add: new_Date_toISOString [OF assms(1)])
  then show ?thesis
    using DateValue
    by (simp add: search_of_def json_of_search_def toJSON_def toISOString_nonempty)
qed

text \<open>What a load makes of a payload the store wrote.\<close>

lemma getRecentSearches_written:
  assumes "\<not> get_fails h" "items h key = Some (LSString (JSON_stringify rs))"
    and "\<forall>r\<in>set rs. valid_Date (timestamp r)" and "reads_toISOString dp"
  shows "getRecentSearches dp h key
           = Inr (Some (filter (\<lambda>r. text r \<noteq> [] \<and> timestamp r \<noteq> InvalidDate) rs))"
proof -
  have "JNull \<notin> set (map json_of_search rs)"
    by (auto simp: json_of_search_def)
  then have "getRecentSearches dp h key = Inr (Some (List.map_filter (search_of dp) (map json_of_search rs)))"
    using assms(1,2) JSON_parse_stringify by (intro getRecentSearches_parsed) auto
  moreover have "List.map_filter (search_of dp) (map json_of_search rs)
      = filter (\<lambda>r. text r \<noteq> [] \<and> timestamp r \<noteq> InvalidDate) rs"
    using assms(3)
    by (induction rs)
       (simp_all add: List.map_filter_simps search_of_json_of_search [OF assms(4)])
  ultimately show ?thesis by simp
qed

lemma appendRecentSearchesStore_effect:
  assumes "getRecentSearches dp h key = Inr (Some xs)"
  shows "appendRecentSearchesStore dp h key e =
           (Inr (), if set_fails h then h
                    else h\<lparr>items := (items h)(key \<mapsto> LSString (JSON_stringify (take 20 (e # xs))))\<rparr>)"
  using assms
  by (cases xs)
     (simp_all add: appendRecentSearchesStore_def setRecentSearches_def setLocalStorageItem_def)

text \<open>One append on a host whose reads and writes succeed, followed by a load.\<close>

lemma append_then_load:
  assumes "\<not> get_fails h" "\<not> set_fails h" "getRecentSearches dp h key = Inr (Some xs)"
    and "valid_Date (timestamp e)" and "reads_toISOString dp"
  shows "getRecentSearches dp (snd (appendRecentSearchesStore dp h key e)) key
           = Inr (Some (filter (\<lambda>r. text r \<noteq> [] \<and> timestamp r \<noteq> InvalidDate)
                          (take 20 (e # xs))))"
proof -
  let ?h = "h\<lparr>items := (items h)(key \<mapsto> LSString (JSON_stringify (take 20 (e # xs))))\<rparr>"
  have h': "snd (appendRecentSearchesStore dp h key e) = ?h"
    using assms(2) appendRecentSearchesStore_effect [OF assms(3)] by simp
  have "\<forall>r\<in>set (take 20 (e # xs)). valid_Date (timestamp r)"
    using getRecentSearches_valid [OF assms(3)] assms(4) by (auto dest: in_set_takeD)
  then show ?thesis
    unfolding h' using assms(1,5) by (intro getRecentSearches_written) simp_all
qed

lemma append_flags:
  "get_fails (snd (appendRecentSearchesStore dp h key e)) = get_fails h"
  "set_fails (snd (appendRecentSearchesStore dp h key e)) = set_fails h"
  "remove_fails (snd (appendRecentSearchesStore dp h key e)) = remove_fails h"
  using getRecentSearches_total [of dp h key]
  by (cases "set_fails h"; auto simp: appendRecentSearchesStore_effect)+

lemma map_filter_all_Some:
  "\<forall>x\<in>set xs. f x \<noteq> None \<Longrightarrow> List.map_filter f xs = map (the \<circ> f) xs"
  by (induction xs) (auto simp: List.map_filter_simps)

lemma search_of_not_null: "search_of dp j \<noteq> None \<Longrightarrow> j \<noteq> JNull"
  by (auto simp: search_of_def)

lemma dispatchAppend_then_load:
  assumes "\<not> get_fails h" "\<not> set_fails h" "getRecentSearches dp h key = Inr (Some xs)"
    and "in_time_range now" and "reads_toISOString dp"
  shows "getRecentSearches dp (snd (dispatchAppend dp h key txt now)) key
           = Inr (Some ((if txt = [] then [] else [\<lparr>text = txt, timestamp = DateValue now\<rparr>])
                        @ filter (\<lambda>r. timestamp r \<noteq> InvalidDate) (take 19 xs)))"
proof -
  let ?e = "\<lparr>text = txt, timestamp = DateValue now\<rparr>"
  have "valid_Date (timestamp ?e)"
    using assms(4) by (simp add: valid_Date_def)
  then have "getRecentSearches dp (snd (dispatchAppend dp h key txt now)) key
      = Inr (Some (filter (\<lambda>r. text r \<noteq> [] \<and> timestamp r \<noteq> InvalidDate) (take 20 (?e # xs))))"
    unfolding dispatchAppend_def by (rule append_then_load [OF assms(1,2,3) _ assms(5)])
  moreover have "filter (\<lambda>r. text r \<noteq> [] \<and> timestamp r \<noteq> InvalidDate) (take 19 xs)
      = filter (\<lambda>r. timestamp r \<noteq> InvalidDate) (take 19 xs)"
    using getRecentSearches_valid [OF assms(3)]
    by (intro filter_cong) (auto dest: in_set_takeD)
  moreover have "take 20 (?e # xs) = ?e # take 19 xs"
    by (simp add: take_Cons')
  ultimately show ?thesis by simp
qed

lemma appends_snoc:
  "appends dp h key (calls @ [(txt, now)]) = snd (dispatchAppend dp (appends dp h key calls) key txt now)"
  by (induction h key calls rule: appends.induct) simp_all

lemma appends_flags:
  "get_fails (appends dp h key calls) = get_fails h"
  "set_fails (appends dp h key calls) = set_fails h"
  by (induction h key calls rule: appends.induct) (simp_all add: dispatchAppend_def append_flags)

lemma appends_stored:
  assumes "\<not> set_fails h" "calls \<noteq> []"
  shows "\<exists>ys. items (appends dp h key calls) key = Some (LSString (JSON_stringify ys)) \<and> length ys \<le> 20"
proof -
  obtain cs q t where calls: "calls = cs @ [(q, t)]"
    using assms(2) by (metis rev_exhaust surj_pair)
  obtain xs where xs: "getRecentSearches dp (appends dp h key cs) key = Inr (Some xs)"
    using getRecentSearches_total by blast
  have "items (appends dp h key calls) key
      = Some (LSString (JSON_stringify (take 20 (\<lparr>text = q, timestamp = DateValue t\<rparr> # xs))))"
    using assms(1)
    by (simp add: calls appends_snoc dispatchAppend_def appendRecentSearchesStore_effect [OF xs]
          appends_flags)
  moreover have "length (take 20 (\<lparr>text = q, timestamp = DateValue t\<rparr> # xs)) \<le> 20"
    by simp
  ultimately show ?thesis by blast
qed

lemma appends_load:
  assumes "\<not> get_fails h" "\<not> set_fails h" "calls \<noteq> []"
    and "\<forall>c\<in>set calls. fst c \<noteq> [] \<and> in_time_range (snd c)" and "reads_toISOString dp"
  shows "\<exists>zs. getRecentSearches dp (appends dp h key calls) key
                 = Inr (Some (take 20 (map entry_of_call (rev calls) @ zs)))
              \<and> (\<forall>z\<in>set zs. timestamp z \<noteq> InvalidDate)"
  using assms(3,4)
proof (induction calls rule: rev_nonempty_induct)
  case (single c)
  obtain xs where xs: "getRecentSearches dp h key = Inr (Some xs)"
    using getRecentSearches_total by blast
  let ?zs = "filter (\<lambda>r. timestamp r \<noteq> InvalidDate) (take 19 xs)"
  have "length ?zs \<le> 19"
    using length_filter_le [of _ "take 19 xs"] by (simp add: le_trans)
  then have "take 20 (entry_of_call c # ?zs) = entry_of_call c # ?zs"
    by simp
  then have "getRecentSearches dp (appends dp h key [c]) key
      = Inr (Some (take 20 (map entry_of_call (rev [c]) @ ?zs)))"
    using dispatchAppend_then_load [OF assms(1,2) xs _ assms(5), of "snd c" "fst c"] single
    by (cases c) (simp add: entry_of_call_def)
  then show ?case by (intro exI [of _ ?zs]) simp
next
  case (snoc c calls)
  then obtain zs where zs:
    "getRecentSearches dp (appends dp h key calls) key
       = Inr (Some (take 20 (map entry_of_call (rev calls) @ zs)))"
    "\<forall>z\<in>set zs. timestamp z \<noteq> InvalidDate"
    by auto
  let ?xs = "take 20 (map entry_of_call (rev calls) @ zs)"
  have valid: "\<forall>r\<in>set (take 19 ?xs). timestamp r \<noteq> InvalidDate"
    using zs(2) by (auto dest!: in_set_takeD simp: entry_of_call_def)
  have flags: "\<not> get_fails (appends dp h key calls)" "\<not> set_fails (appends dp h key calls)"
    using assms(1,2) by (simp_all add: appends_flags)
  have "getRecentSearches dp (appends dp h key (calls @ [c])) key
      = Inr (Some (entry_of_call c # filter (\<lambda>r. timestamp r \<noteq> InvalidDate) (take 19 ?xs)))"
    using dispatchAppend_then_load [OF flags zs(1) _ assms(5), of "snd c" "fst c"] snoc.prems
    by (cases c) (simp add: entry_of_call_def appends_snoc)
  moreover have "filter (\<lambda>r. timestamp r \<noteq> InvalidDate) (take 19 ?xs) = take 19 ?xs"
    using valid by (simp add: filter_id_conv)
  moreover have "entry_of_call c # take 19 ?xs
      = take 20 (map entry_of_call (rev (calls @ [c])) @ zs)"
    by (simp add: take_Cons' min_def)
  ultimately show ?case
    using zs(2) by (intro exI [of _ zs]) simp
qed

section \<open>The claims\<close>

text \<open>
  The statements hold for every engine: \<open>dp\<close>, the engine's \<open>Date.parse\<close>, is
  arbitrary. Where a statement follows a timestamp through a write and a later read, it
  assumes \<open>reads_toISOString dp\<close>, which ECMAScript requires of every engine. The
  examples run on the engine \<open>Date_parse_ISO\<close>.
\<close>

text \<open>
  C1, as the specification states it: from the payload with the four elements
  \<open>{"text":"a"}\<close>, \<open>{"timestamp":"2020-01-01"}\<close>, \<open>{"text":"b","timestamp":"not-a-date"}\<close>
  and \<open>{"text":"c","timestamp":"2021-01-01T00:00:00Z"}\<close>, a load returns the last one
  alone. Refuted: it returns two entries, the one with the text \<open>b\<close> as well, whose
  timestamp is an Invalid Date; and it returns two entries on every engine, whatever
  the engine makes of the two timestamp strings.
\<close>

theorem load_malformed_payload_counterexample:
  \<open>getRecentSearches Date_parse_ISO
     (host_with [(str ''recent'') \<mapsto> LSString (str ''[{"text":"a"},{"timestamp":"2020-01-01"},{"text":"b","timestamp":"not-a-date"},{"text":"c","timestamp":"2021-01-01T00:00:00Z"}]'')])
     (str ''recent'')
   = Inr (Some [\<lparr>text = (str ''b''), timestamp = InvalidDate\<rparr>,
                \<lparr>text = (str ''c''), timestamp = DateValue 1609459200000\<rparr>])
   \<and> getRecentSearches Date_parse_ISO
     (host_with [(str ''recent'') \<mapsto> LSString (str ''[{"text":"a"},{"timestamp":"2020-01-01"},{"text":"b","timestamp":"not-a-date"},{"text":"c","timestamp":"2021-01-01T00:00:00Z"}]'')])
     (str ''recent'')
   \<noteq> Inr (Some [\<lparr>text = (str ''c''), timestamp = DateValue 1609459200000\<rparr>])
   \<and> (\<forall>dp. \<exists>x y. getRecentSearches dp
     (host_with [(str ''recent'') \<mapsto> LSString (str ''[{"text":"a"},{"timestamp":"2020-01-01"},{"text":"b","timestamp":"not-a-date"},{"text":"c","timestamp":"2021-01-01T00:00:00Z"}]'')])
     (str ''recent'')
       = Inr (Some [x, y]) \<and> text x = (str ''b'') \<and> text y = (str ''c''))\<close>
proof -
  let ?p = \<open>str ''[{"text":"a"},{"timestamp":"2020-01-01"},{"text":"b","timestamp":"not-a-date"},{"text":"c","timestamp":"2021-01-01T00:00:00Z"}]''\<close>
  let ?h = "host_with [(str ''recent'') \<mapsto> LSString ?p]"
  let ?js = "[JObject [(str ''text'', JString (str ''a''))],
              JObject [(str ''timestamp'', JString (str ''2020-01-01''))],
              JObject [(str ''text'', JString (str ''b'')), (str ''timestamp'', JString (str ''not-a-date''))],
              JObject [(str ''text'', JString (str ''c'')),
                       (str ''timestamp'', JString (str ''2021-01-01T00:00:00Z''))]]"
  have one: "getRecentSearches Date_parse_ISO ?h (str ''recent'')
      = Inr (Some [\<lparr>text = (str ''b''), timestamp = InvalidDate\<rparr>,
                   \<lparr>text = (str ''c''), timestamp = DateValue 1609459200000\<rparr>])"
    by code_simp
  have p: "JSON_parse ?p = Inr (JArray ?js)"
    by code_simp
  have "getRecentSearches dp ?h (str ''recent'')
      = Inr (Some [\<lparr>text = (str ''b''), timestamp = new_Date dp (str ''not-a-date'')\<rparr>,
                   \<lparr>text = (str ''c''), timestamp = new_Date dp (str ''2021-01-01T00:00:00Z'')\<rparr>])"
    for dp
  proof -
    have "getRecentSearches dp ?h (str ''recent'') = Inr (Some (List.map_filter (search_of dp) ?js))"
      by (rule getRecentSearches_parsed [OF _ _ p]) (simp_all add: host_with_def)
    then show ?thesis
      by (simp add: List.map_filter_simps search_of_def)
  qed
  then have "\<forall>dp. \<exists>x y. getRecentSearches dp ?h (str ''recent'') = Inr (Some [x, y])
      \<and> text x = (str ''b'') \<and> text y = (str ''c'')"
    by simp
  then show ?thesis
    using one by simp
qed

text \<open>
  C1, amended. From that payload a load returns the two entries with the texts \<open>b\<close>
  and \<open>c\<close>, their timestamps being what \<open>new Date\<close> makes of \<open>not-a-date\<close> and of
  \<open>2021-01-01T00:00:00Z\<close>. When the read succeeds and the payload is a JSON array without
  a \<open>null\<close> element, a load returns, in the order of the array, one entry for each
  element that is an object with a non-empty string \<open>text\<close> and a non-empty string
  \<open>timestamp\<close>, and nothing for any other element. The timestamp string is handed to
  \<open>new Date\<close> and is not checked: a string that the engine does not read as a date
  gives an entry whose timestamp is an Invalid Date.
\<close>

theorem load_accepts_text_and_timestamp_strings:
  \<open>(\<not> get_fails h
      \<and> items h key = Some (LSString (str ''[{"text":"a"},{"timestamp":"2020-01-01"},{"text":"b","timestamp":"not-a-date"},{"text":"c","timestamp":"2021-01-01T00:00:00Z"}]''))
     \<longrightarrow> getRecentSearches dp h key
           = Inr (Some [\<lparr>text = (str ''b''), timestamp = new_Date dp (str ''not-a-date'')\<rparr>,
                        \<lparr>text = (str ''c''),
                         timestamp = new_Date dp (str ''2021-01-01T00:00:00Z'')\<rparr>]))
   \<and> (\<not> get_fails h \<and> items h key = Some (LSString p) \<and> JSON_parse p = Inr (JArray js)
          \<and> JNull \<notin> set js
        \<longrightarrow> getRecentSearches dp h key = Inr (Some (List.map_filter (search_of dp) js)))\<close>
proof (intro conjI impI)
  let ?p = \<open>str ''[{"text":"a"},{"timestamp":"2020-01-01"},{"text":"b","timestamp":"not-a-date"},{"text":"c","timestamp":"2021-01-01T00:00:00Z"}]''\<close>
  let ?js = "[JObject [(str ''text'', JString (str ''a''))],
              JObject [(str ''timestamp'', JString (str ''2020-01-01''))],
              JObject [(str ''text'', JString (str ''b'')), (str ''timestamp'', JString (str ''not-a-date''))],
              JObject [(str ''text'', JString (str ''c'')),
                       (str ''timestamp'', JString (str ''2021-01-01T00:00:00Z''))]]"
  assume "\<not> get_fails h \<and> items h key = Some (LSString ?p)"
  then have f: "\<not> get_fails h" and i: "items h key = Some (LSString ?p)"
    by simp_all
  have p: "JSON_parse ?p = Inr (JArray ?js)"
    by code_simp
  have "getRecentSearches dp h key = Inr (Some (List.map_filter (search_of dp) ?js))"
    by (rule getRecentSearches_parsed [OF f i p]) simp
  then show "getRecentSearches dp h key
      = Inr (Some [\<lparr>text = (str ''b''), timestamp = new_Date dp (str ''not-a-date'')\<rparr>,
                   \<lparr>text = (str ''c''), timestamp = new_Date dp (str ''2021-01-01T00:00:00Z'')\<rparr>])"
    by (simp add: List.map_filter_simps search_of_def)
next
  assume "\<not> get_fails h \<and> items h key = Some (LSString p) \<and> JSON_parse p = Inr (JArray js)
      \<and> JNull \<notin> set js"
  then have "\<not> get_fails h" and "items h key = Some (LSString p)"
    and "JSON_parse p = Inr (JArray js)" and "JNull \<notin> set js"
    by simp_all
  then show "getRecentSearches dp h key = Inr (Some (List.map_filter (search_of dp) js))"
    by (rule getRecentSearches_parsed)
qed

text \<open>
  The two parts on examples. In the second payload the first text is written with the
  escape \<open>\u0416\<close> and its timestamp with a time zone offset.
\<close>

theorem load_accepts_text_and_timestamp_strings_witness:
  \<open>getRecentSearches Date_parse_ISO
     (host_with [(str ''recent'') \<mapsto> LSString (str ''[{"text":"a"},{"timestamp":"2020-01-01"},{"text":"b","timestamp":"not-a-date"},{"text":"c","timestamp":"2021-01-01T00:00:00Z"}]'')])
     (str ''recent'')
   = Inr (Some [\<lparr>text = (str ''b''), timestamp = InvalidDate\<rparr>,
                \<lparr>text = (str ''c''), timestamp = DateValue 1609459200000\<rparr>])
   \<and> getRecentSearches Date_parse_ISO
     (host_with [(str ''recent'') \<mapsto> LSString (str ''[{"text":"'' @ [0x5C] @ str ''u0416","timestamp":"2021-01-01T00:00:00+01:00"},{"text":"","timestamp":"2021-01-01"},"junk",{"text":7,"timestamp":"2021-01-01"},{"text":"r","timestamp":"yesterday","n":1}]'')])
     (str ''recent'')
   = Inr (Some [\<lparr>text = [0x416], timestamp = DateValue 1609455600000\<rparr>,
                \<lparr>text = (str ''r''), timestamp = InvalidDate\<rparr>])\<close>
proof -
  let ?p1 = \<open>str ''[{"text":"a"},{"timestamp":"2020-01-01"},{"text":"b","timestamp":"not-a-date"},{"text":"c","timestamp":"2021-01-01T00:00:00Z"}]''\<close>
  let ?h1 = "host_with [(str ''recent'') \<mapsto> LSString ?p1]"
  let ?p = \<open>str ''[{"text":"'' @ [0x5C] @ str ''u0416","timestamp":"2021-01-01T00:00:00+01:00"},{"text":"","timestamp":"2021-01-01"},"junk",{"text":7,"timestamp":"2021-01-01"},{"text":"r","timestamp":"yesterday","n":1}]''\<close>
  let ?h = "host_with [(str ''recent'') \<mapsto> LSString ?p]"
  let ?js = "[JObject [(str ''text'', JString [0x416]),
                       (str ''timestamp'', JString (str ''2021-01-01T00:00:00+01:00''))],
              JObject [(str ''text'', JString []), (str ''timestamp'', JString (str ''2021-01-01''))],
              JString (str ''junk''),
              JObject [(str ''text'', JNumber 7 0), (str ''timestamp'', JString (str ''2021-01-01''))],
              JObject [(str ''text'', JString (str ''r'')), (str ''timestamp'', JString (str ''yesterday'')),
                       (str ''n'', JNumber 1 0)]]"
  have a1: "\<not> get_fails ?h1 \<and> items ?h1 (str ''recent'') = Some (LSString ?p1)"
    by (simp add: host_with_def)
  have n1: "new_Date Date_parse_ISO (str ''not-a-date'') = InvalidDate"
    by code_simp
  have n2: "new_Date Date_parse_ISO (str ''2021-01-01T00:00:00Z'') = DateValue 1609459200000"
    by code_simp
  have first: "getRecentSearches Date_parse_ISO ?h1 (str ''recent'')
      = Inr (Some [\<lparr>text = (str ''b''), timestamp = InvalidDate\<rparr>,
                   \<lparr>text = (str ''c''), timestamp = DateValue 1609459200000\<rparr>])"
    using load_accepts_text_and_timestamp_strings
            [where dp = Date_parse_ISO and h = ?h1 and key = "str ''recent''"] a1
    unfolding n1 n2 by blast
  have a: "\<not> get_fails ?h" and b: "items ?h (str ''recent'') = Some (LSString ?p)"
    by (simp_all add: host_with_def)
  have c: "JSON_parse ?p = Inr (JArray ?js)"
    by code_simp
  have d: "JNull \<notin> set ?js"
    by simp
  have e: "List.map_filter (search_of Date_parse_ISO) ?js
      = [\<lparr>text = [0x416], timestamp = DateValue 1609455600000\<rparr>,
         \<lparr>text = (str ''r''), timestamp = InvalidDate\<rparr>]"
    by code_simp
  have "getRecentSearches Date_parse_ISO ?h (str ''recent'')
      = Inr (Some (List.map_filter (search_of Date_parse_ISO) ?js))"
    using load_accepts_text_and_timestamp_strings
            [where dp = Date_parse_ISO and h = ?h and key = "str ''recent''" and p = ?p
               and js = ?js] a b c d
    by blast
  then show ?thesis
    using first unfolding e by blast
qed

text \<open>
  C2, as the specification states it: an append with an empty text leaves the
  persisted state as it was. Refuted: on an empty store it writes a payload, a list
  of one entry whose text is empty.
\<close>

theorem append_empty_text_counterexample:
  \<open>items (host_with Map.empty) (str ''recent'') = None
   \<and> items (snd (dispatchAppend Date_parse_ISO (host_with Map.empty) (str ''recent'') [] 0)) (str ''recent'')
       = Some (LSString (str ''[{"text":"","timestamp":"1970-01-01T00:00:00.000Z"}]''))\<close>
  by code_simp

text \<open>
  C2, amended. An append with an empty text is not rejected. On a host whose reads
  and writes succeed it stores the list made of an entry with the empty text followed
  by the first 19 of the loaded entries. A load afterwards skips that entry, so it
  yields no new entry: on an engine whose \<open>Date.parse\<close> reads back what \<open>toISOString\<close>
  writes, it returns the first 19 of the entries loaded before (without those that
  had an Invalid Date). No entry that a load returns has an empty text. A text of
  white space only is stored and returned like any other text.
\<close>

theorem append_empty_text_is_stored:
  assumes "\<not> get_fails h" and "\<not> set_fails h" and "in_time_range now"
    and "reads_toISOString dp"
    and "getRecentSearches dp h key = Inr (Some xs)"
  shows "items (snd (dispatchAppend dp h key [] now)) key
           = Some (LSString (JSON_stringify (\<lparr>text = [], timestamp = DateValue now\<rparr> # take 19 xs)))
         \<and> getRecentSearches dp (snd (dispatchAppend dp h key [] now)) key
             = Inr (Some (filter (\<lambda>r. timestamp r \<noteq> InvalidDate) (take 19 xs)))
         \<and> (\<forall>x\<in>set xs. text x \<noteq> [])
         \<and> getRecentSearches dp (snd (dispatchAppend dp h key (str '' '') now)) key
             = Inr (Some (\<lparr>text = (str '' ''), timestamp = DateValue now\<rparr>
                          # filter (\<lambda>r. timestamp r \<noteq> InvalidDate) (take 19 xs)))"
proof -
  have "items (snd (dispatchAppend dp h key [] now)) key
      = Some (LSString (JSON_stringify (\<lparr>text = [], timestamp = DateValue now\<rparr> # take 19 xs)))"
    using assms(2)
    by (simp add: dispatchAppend_def appendRecentSearchesStore_effect [OF assms(5)] take_Cons')
  moreover have "\<forall>x\<in>set xs. text x \<noteq> []"
    using getRecentSearches_valid [OF assms(5)] by blast
  ultimately show ?thesis
    using dispatchAppend_then_load [OF assms(1,2,5,3,4), of "[]"]
      dispatchAppend_then_load [OF assms(1,2,5,3,4), of "(str '' '')"]
    by simp
qed

theorem append_empty_text_is_stored_witness:
  \<open>items (snd (dispatchAppend Date_parse_ISO (host_with [(str ''recent'') \<mapsto> LSString (str ''[{"text":"old","timestamp":"2021-01-01T00:00:00+01:00"}]'')])
             (str ''recent'') [] 0)) (str ''recent'')
     = Some (LSString (str ''[{"text":"","timestamp":"1970-01-01T00:00:00.000Z"},{"text":"old","timestamp":"2020-12-31T23:00:00.000Z"}]''))
   \<and> getRecentSearches Date_parse_ISO
       (snd (dispatchAppend Date_parse_ISO (host_with [(str ''recent'') \<mapsto> LSString (str ''[{"text":"old","timestamp":"2021-01-01T00:00:00+01:00"}]'')])
             (str ''recent'') [] 0)) (str ''recent'')
     = Inr (Some [\<lparr>text = (str ''old''), timestamp = DateValue 1609455600000\<rparr>])
   \<and> getRecentSearches Date_parse_ISO
       (snd (dispatchAppend Date_parse_ISO (host_with [(str ''recent'') \<mapsto> LSString (str ''[{"text":"old","timestamp":"2021-01-01T00:00:00+01:00"}]'')])
             (str ''recent'') (str '' '') 0)) (str ''recent'')
     = Inr (Some [\<lparr>text = (str '' ''), timestamp = DateValue 0\<rparr>,
                  \<lparr>text = (str ''old''), timestamp = DateValue 1609455600000\<rparr>])\<close>
proof -
  let ?h = \<open>host_with [(str ''recent'') \<mapsto> LSString (str ''[{"text":"old","timestamp":"2021-01-01T00:00:00+01:00"}]'')]\<close>
  have a: "\<not> get_fails ?h" and b: "\<not> set_fails ?h"
    by (simp_all add: host_with_def)
  have c: "in_time_range 0"
    by (simp add: in_time_range_def)
  have d: "getRecentSearches Date_parse_ISO ?h (str ''recent'')
      = Inr (Some [\<lparr>text = (str ''old''), timestamp = DateValue 1609455600000\<rparr>])"
    by code_simp
  have e: \<open>JSON_stringify [\<lparr>text = [], timestamp = DateValue 0\<rparr>,
                            \<lparr>text = (str ''old''), timestamp = DateValue 1609455600000\<rparr>]
      = str ''[{"text":"","timestamp":"1970-01-01T00:00:00.000Z"},{"text":"old","timestamp":"2020-12-31T23:00:00.000Z"}]''\<close>
    by code_simp
  show ?thesis
    using append_empty_text_is_stored [OF a b c reads_toISOString_Date_parse_ISO d] e by simp
qed

text \<open>
  C3, as the specification states it: no store operation ever raises to its caller,
  whatever call of the host fails. Refuted for \<open>clear\<close>: on a host whose \<open>remove\<close>
  fails, \<open>clearRecentSearchesStore\<close> rejects with the host's error.
\<close>

theorem clear_raises_counterexample:
  "fst (clearRecentSearchesStore ((host_with Map.empty)\<lparr>remove_fails := True\<rparr>) (str ''recent''))
     = Inl HostFailure"
  by (simp add: clearRecentSearchesStore_def removeLocalStorageItem_def host_with_def)

text \<open>
  C3, amended. \<open>getRecentSearches\<close> never rejects, and resolves to the empty list when
  the read fails. \<open>appendRecentSearchesStore\<close> never rejects: a failed read counts as no
  data, so that a single-entry list is written, and a failed write leaves the host as
  it was. \<open>clearRecentSearchesStore\<close> resolves when the removal succeeds; when it fails,
  the promise rejects with the host's error and the host is left as it was.
\<close>

theorem store_failure_semantics:
  "(\<exists>xs. getRecentSearches dp h key = Inr (Some xs))
   \<and> (get_fails h \<longrightarrow> getRecentSearches dp h key = Inr (Some []))
   \<and> fst (appendRecentSearchesStore dp h key search) = Inr ()
   \<and> (get_fails h \<and> \<not> set_fails h \<longrightarrow>
        items (snd (appendRecentSearchesStore dp h key search)) key = Some (LSString (JSON_stringify [search])))
   \<and> (set_fails h \<longrightarrow> snd (appendRecentSearchesStore dp h key search) = h)
   \<and> (\<not> remove_fails h \<longrightarrow> fst (clearRecentSearchesStore h key) = Inr ())
   \<and> (remove_fails h \<longrightarrow> clearRecentSearchesStore h key = (Inl HostFailure, h))"
proof -
  obtain xs where xs: "getRecentSearches dp h key = Inr (Some xs)"
    using getRecentSearches_total by blast
  have fails: "getRecentSearches dp h key = Inr (Some [])" if "get_fails h"
    using that
    by (simp add: getRecentSearches_def getRecentSearches_try_def getLocalStorageItem_def)
  have "fst (appendRecentSearchesStore dp h key search) = Inr ()"
    by (simp add: appendRecentSearchesStore_effect [OF xs])
  moreover have "items (snd (appendRecentSearchesStore dp h key search)) key
      = Some (LSString (JSON_stringify [search]))" if "get_fails h" "\<not> set_fails h"
    using that by (simp add: appendRecentSearchesStore_effect [OF fails])
  moreover have "snd (appendRecentSearchesStore dp h key search) = h" if "set_fails h"
    using that by (simp add: appendRecentSearchesStore_effect [OF xs])
  moreover have "fst (clearRecentSearchesStore h key) = Inr ()" if "\<not> remove_fails h"
    using that by (simp add: clearRecentSearchesStore_def removeLocalStorageItem_def)
  moreover have "clearRecentSearchesStore h key = (Inl HostFailure, h)" if "remove_fails h"
    using that by (simp add: clearRecentSearchesStore_def removeLocalStorageItem_def)
  ultimately show ?thesis
    using xs fails by blast
qed

theorem store_failure_semantics_witness:
  \<open>getRecentSearches Date_parse_ISO \<lparr>items = [(str ''recent'') \<mapsto> LSString (str ''[{"text":"a","timestamp":"2021-01-01"}]'')],
        get_fails = True, set_fails = True, remove_fails = True\<rparr> (str ''recent'') = Inr (Some [])
   \<and> appendRecentSearchesStore Date_parse_ISO \<lparr>items = Map.empty, get_fails = True, set_fails = True,
        remove_fails = True\<rparr> (str ''recent'') \<lparr>text = (str ''a''), timestamp = DateValue 0\<rparr>
       = (Inr (), \<lparr>items = Map.empty, get_fails = True, set_fails = True, remove_fails = True\<rparr>)
   \<and> clearRecentSearchesStore \<lparr>items = Map.empty, get_fails = True, set_fails = True,
        remove_fails = True\<rparr> (str ''recent'')
       = (Inl HostFailure,
          \<lparr>items = Map.empty, get_fails = True, set_fails = True, remove_fails = True\<rparr>)
   \<and> fst (clearRecentSearchesStore (host_with Map.empty) (str ''recent'')) = Inr ()\<close>
proof -
  let ?g = \<open>\<lparr>items = [(str ''recent'') \<mapsto> LSString (str ''[{"text":"a","timestamp":"2021-01-01"}]'')],
        get_fails = True, set_fails = True, remove_fails = True\<rparr>\<close>
  let ?h = "\<lparr>items = Map.empty, get_fails = True, set_fails = True, remove_fails = True\<rparr>"
  let ?e = "\<lparr>text = (str ''a''), timestamp = DateValue 0\<rparr>"
  have "getRecentSearches Date_parse_ISO ?g (str ''recent'') = Inr (Some [])"
    using store_failure_semantics [of Date_parse_ISO ?g "(str ''recent'')" ?e] by simp
  moreover have "appendRecentSearchesStore Date_parse_ISO ?h (str ''recent'') ?e = (Inr (), ?h)"
    using store_failure_semantics [of Date_parse_ISO ?h "(str ''recent'')" ?e]
    by (simp add: prod_eq_iff)
  moreover have "clearRecentSearchesStore ?h (str ''recent'') = (Inl HostFailure, ?h)"
    using store_failure_semantics [of Date_parse_ISO ?h "(str ''recent'')" ?e] by simp
  moreover have "fst (clearRecentSearchesStore (host_with Map.empty) (str ''recent'')) = Inr ()"
    using store_failure_semantics [of Date_parse_ISO "host_with Map.empty" "(str ''recent'')" ?e]
    by (simp add: host_with_def)
  ultimately show ?thesis by blast
qed

text \<open>
  C4. Capacity: on a host whose reads and writes succeed and an engine whose
  \<open>Date.parse\<close> reads back what \<open>toISOString\<close> writes, after 20 or more (so, in
  particular, 21 or more) successive appends of non-empty texts under one key,
  whatever was stored before, a load returns exactly 20 entries: those of the last 20
  appends, the most recent first. After every one of the appends, what is stored is
  a list of at most 20 entries. The texts need not be distinct for this.
\<close>

theorem capacity_bound:
  assumes "\<not> get_fails h" and "\<not> set_fails h"
    and "\<forall>c\<in>set calls. fst c \<noteq> [] \<and> in_time_range (snd c)"
    and "20 \<le> length calls"
    and "reads_toISOString dp"
  shows "getRecentSearches dp (appends dp h key calls) key
           = Inr (Some (map entry_of_call (take 20 (rev calls))))
         \<and> length (map entry_of_call (take 20 (rev calls))) = 20
         \<and> (\<forall>n\<in>{1..length calls}.
               \<exists>ys. items (appends dp h key (take n calls)) key = Some (LSString (JSON_stringify ys))
                    \<and> length ys \<le> 20)"
proof -
  have ne: "calls \<noteq> []"
    using assms(4) by auto
  obtain zs where "getRecentSearches dp (appends dp h key calls) key
      = Inr (Some (take 20 (map entry_of_call (rev calls) @ zs)))"
    using appends_load [OF assms(1,2) ne assms(3,5)] by blast
  moreover have "take 20 (map entry_of_call (rev calls) @ zs)
      = map entry_of_call (take 20 (rev calls))"
    using assms(4) by (simp add: take_map)
  moreover have "length (map entry_of_call (take 20 (rev calls))) = 20"
    using assms(4) by simp
  moreover have "\<exists>ys. items (appends dp h key (take n calls)) key = Some (LSString (JSON_stringify ys))
      \<and> length ys \<le> 20" if "n \<in> {1..length calls}" for n
  proof -
    from that ne have "take n calls \<noteq> []" by (cases calls) auto
    then show ?thesis by (rule appends_stored [OF assms(2)])
  qed
  ultimately show ?thesis by simp
qed

theorem capacity_bound_witness:
  "getRecentSearches Date_parse_ISO (appends Date_parse_ISO (host_with Map.empty) (str ''recent'') sample_calls) (str ''recent'')
     = Inr (Some (map entry_of_call (take 20 (rev sample_calls))))
   \<and> length (map entry_of_call (take 20 (rev sample_calls))) = 20
   \<and> hd (map entry_of_call (take 20 (rev sample_calls)))
       = \<lparr>text = replicate 21 (U (CHR ''a'')), timestamp = DateValue 1709210096809\<rparr>
   \<and> last (map entry_of_call (take 20 (rev sample_calls)))
       = \<lparr>text = (str ''aa''), timestamp = DateValue 1709210096790\<rparr>"
proof -
  have a: "\<not> get_fails (host_with Map.empty)" and b: "\<not> set_fails (host_with Map.empty)"
    by (simp_all add: host_with_def)
  have c: "\<forall>c\<in>set sample_calls. fst c \<noteq> [] \<and> in_time_range (snd c)"
    by (auto simp: sample_calls_def in_time_range_def)
  have e: "20 \<le> length sample_calls"
    by (simp add: sample_calls_def)
  have f: "hd (map entry_of_call (take 20 (rev sample_calls)))
      = \<lparr>text = replicate 21 (U (CHR ''a'')), timestamp = DateValue 1709210096809\<rparr>"
    by code_simp
  have g: "last (map entry_of_call (take 20 (rev sample_calls)))
      = \<lparr>text = (str ''aa''), timestamp = DateValue 1709210096790\<rparr>"
    by code_simp
  show ?thesis
    using capacity_bound [OF a b c e reads_toISOString_Date_parse_ISO, of "(str ''recent'')"] f g
    by simp
qed

text \<open>
  C5. Round trip: on a host whose reads and writes succeed and an engine whose
  \<open>Date.parse\<close> reads back what \<open>toISOString\<close> writes, an append of \<open>foo\<close> followed by
  a load returns a list whose first entry has the text \<open>foo\<close> and, as timestamp, the
  clock reading \<open>now\<close> that the append took, which lies in the window from \<open>t0\<close> to
  \<open>t1\<close> of the call.
\<close>

theorem append_load_round_trip:
  assumes "\<not> get_fails h" and "\<not> set_fails h"
    and "in_time_range now" and "t0 \<le> now" and "now \<le> t1"
    and "reads_toISOString dp"
  shows "\<exists>r rest t. getRecentSearches dp (snd (dispatchAppend dp h key (str ''foo'') now)) key
                       = Inr (Some (r # rest))
                    \<and> text r = (str ''foo'') \<and> timestamp r = DateValue t
                    \<and> t = now \<and> t0 \<le> t \<and> t \<le> t1"
proof -
  obtain xs where xs: "getRecentSearches dp h key = Inr (Some xs)"
    using getRecentSearches_total by blast
  show ?thesis
    using dispatchAppend_then_load [OF assms(1,2) xs assms(3,6), of "(str ''foo'')"] assms(4,5)
    by simp
qed

theorem append_load_round_trip_witness:
  \<open>\<exists>r rest t. getRecentSearches Date_parse_ISO
       (snd (dispatchAppend Date_parse_ISO (host_with [(str ''recent'') \<mapsto> LSString (str ''[{"text":"old","timestamp":"2021-01-01"}]'')])
          (str ''recent'') (str ''foo'') 1709210096789)) (str ''recent'') = Inr (Some (r # rest))
     \<and> text r = (str ''foo'') \<and> timestamp r = DateValue t
     \<and> t = 1709210096789 \<and> 1709210096000 \<le> t \<and> t \<le> 1709210097000\<close>
proof -
  let ?h = \<open>host_with [(str ''recent'') \<mapsto> LSString (str ''[{"text":"old","timestamp":"2021-01-01"}]'')]\<close>
  have a: "\<not> get_fails ?h" and b: "\<not> set_fails ?h"
    by (simp_all add: host_with_def)
  have c: "in_time_range 1709210096789"
    by (simp add: in_time_range_def)
  show ?thesis
    using append_load_round_trip [OF a b c _ _ reads_toISOString_Date_parse_ISO,
        of 1709210096000 1709210097000 "(str ''recent'')"]
    by simp
qed

text \<open>
  C6. When no payload is stored under the key, or the stored payload does not parse
  as a collection (it is not JSON, or it is JSON for something other than an array),
  \<open>getRecentSearches\<close> resolves to the empty list, on every engine and whether or not
  the read itself fails.
\<close>

theorem getRecentSearches_no_collection:
  assumes "items h key = None
           \<or> (\<exists>v. items h key = Some v \<and> \<not> parses_as_collection (toString v))"
  shows "getRecentSearches dp h key = Inr (Some [])"
proof (cases "get_fails h")
  case True
  then show ?thesis
    by (simp add: getRecentSearches_def getRecentSearches_try_def getLocalStorageItem_def)
next
  case False
  from assms show ?thesis
  proof
    assume "items h key = None"
    with False show ?thesis
      by (simp add: getRecentSearches_def getRecentSearches_try_def getLocalStorageItem_def)
  next
    assume "\<exists>v. items h key = Some v \<and> \<not> parses_as_collection (toString v)"
    then obtain v where p: "items h key = Some v" "\<not> parses_as_collection (toString v)" by blast
    with False show ?thesis
      by (auto simp: getRecentSearches_def getRecentSearches_try_def getLocalStorageItem_def
            parses_as_collection_def split: sum.splits json.splits)
  qed
qed

theorem getRecentSearches_no_collection_witness:
  \<open>getRecentSearches Date_parse_ISO (host_with Map.empty) (str ''recent'') = Inr (Some [])
   \<and> getRecentSearches Date_parse_ISO (host_with [(str ''recent'') \<mapsto> LSString (str ''{"text":"a"}'')]) (str ''recent'')
       = Inr (Some [])
   \<and> getRecentSearches Date_parse_ISO (host_with [(str ''recent'') \<mapsto> LSString (str ''[{"text":'')]) (str ''recent'')
       = Inr (Some [])
   \<and> getRecentSearches Date_parse_ISO (host_with [(str ''recent'') \<mapsto> LSNumber (str ''20'')]) (str ''recent'')
       = Inr (Some [])
   \<and> getRecentSearches Date_parse_ISO (host_with [(str ''recent'') \<mapsto> LSBoolean True]) (str ''recent'')
       = Inr (Some [])\<close>
proof -
  have a: \<open>\<not> parses_as_collection (str ''{"text":"a"}'')\<close>
    by code_simp
  have b: \<open>\<not> parses_as_collection (str ''[{"text":'')\<close>
    by code_simp
  have c: \<open>\<not> parses_as_collection (toString (LSNumber (str ''20'')))\<close>
    by code_simp
  have d: \<open>\<not> parses_as_collection (toString (LSBoolean True))\<close>
    by code_simp
  have "getRecentSearches Date_parse_ISO (host_with Map.empty) (str ''recent'') = Inr (Some [])"
    by (rule getRecentSearches_no_collection) (simp add: host_with_def)
  moreover have \<open>getRecentSearches Date_parse_ISO (host_with [(str ''recent'') \<mapsto> LSString (str ''{"text":"a"}'')])
      (str ''recent'') = Inr (Some [])\<close>
    using a by (intro getRecentSearches_no_collection) (simp add: host_with_def toString_def)
  moreover have \<open>getRecentSearches Date_parse_ISO (host_with [(str ''recent'') \<mapsto> LSString (str ''[{"text":'')])
      (str ''recent'') = Inr (Some [])\<close>
    using b by (intro getRecentSearches_no_collection) (simp add: host_with_def toString_def)
  moreover have "getRecentSearches Date_parse_ISO (host_with [(str ''recent'') \<mapsto> LSNumber (str ''20'')]) (str ''recent'')
      = Inr (Some [])"
    using c by (intro getRecentSearches_no_collection) (simp add: host_with_def)
  moreover have "getRecentSearches Date_parse_ISO (host_with [(str ''recent'') \<mapsto> LSBoolean True]) (str ''recent'')
      = Inr (Some [])"
    using d by (intro getRecentSearches_no_collection) (simp add: host_with_def)
  ultimately show ?thesis by simp
qed

text \<open>
  C7 (debounce coalescing) is about the timer behind \<open>useDebouncedCallback\<close>, which
  the hook gets from the package \<open>use-debounce\<close> with the delays 1500 and 3000. That
  timer is not part of this module, and nothing is stated about it here.
\<close>

text \<open>
  C8. An append of a non-empty text always puts a fresh entry in front; nothing is
  merged. On a host whose reads and writes succeed and an engine whose \<open>Date.parse\<close>
  reads back what \<open>toISOString\<close> writes, a load after the append returns the new entry
  followed by the first 19 of the entries loaded before (those with an Invalid Date
  are lost in the write), whatever their texts: an earlier entry with the same text
  stays in the list.
\<close>

theorem append_prepends_without_merging:
  assumes "\<not> get_fails h" and "\<not> set_fails h" and "in_time_range now" and "txt \<noteq> []"
    and "reads_toISOString dp"
    and "getRecentSearches dp h key = Inr (Some xs)"
  shows "getRecentSearches dp (snd (dispatchAppend dp h key txt now)) key
           = Inr (Some (\<lparr>text = txt, timestamp = DateValue now\<rparr>
                        # filter (\<lambda>r. timestamp r \<noteq> InvalidDate) (take 19 xs)))"
  using dispatchAppend_then_load [OF assms(1,2,6,3,5), of "txt"] assms(4) by simp

theorem append_prepends_without_merging_witness:
  \<open>getRecentSearches Date_parse_ISO
     (snd (dispatchAppend Date_parse_ISO (host_with [(str ''recent'') \<mapsto> LSString (str ''[{"text":"foo","timestamp":"2021-01-01T00:00:00+01:00"}]'')])
        (str ''recent'') (str ''foo'') 1709210096789)) (str ''recent'')
   = Inr (Some [\<lparr>text = (str ''foo''), timestamp = DateValue 1709210096789\<rparr>,
                \<lparr>text = (str ''foo''), timestamp = DateValue 1609455600000\<rparr>])\<close>
proof -
  let ?h = \<open>host_with [(str ''recent'') \<mapsto> LSString (str ''[{"text":"foo","timestamp":"2021-01-01T00:00:00+01:00"}]'')]\<close>
  have a: "\<not> get_fails ?h" and b: "\<not> set_fails ?h"
    by (simp_all add: host_with_def)
  have c: "in_time_range 1709210096789"
    by (simp add: in_time_range_def)
  have d: "(str ''foo'') \<noteq> []"
    by simp
  have e: "getRecentSearches Date_parse_ISO ?h (str ''recent'')
      = Inr (Some [\<lparr>text = (str ''foo''), timestamp = DateValue 1609455600000\<rparr>])"
    by code_simp
  show ?thesis
    using append_prepends_without_merging [OF a b c d reads_toISOString_Date_parse_ISO e] by simp
qed

text \<open>
  C9. \<open>getRecentSearches\<close> is total at its interface: for every host state, failing or
  not, and every key, its promise resolves to an array. It never rejects and never
  resolves to \<open>undefined\<close>, although its declared type allows that.
\<close>

theorem getRecentSearches_resolves_to_array:
  "(\<exists>xs. getRecentSearches dp h key = Inr (Some xs))
   \<and> getRecentSearches dp h key \<noteq> Inr None
   \<and> getRecentSearches dp h key \<noteq> Inl e"
  using getRecentSearches_total [of dp h key] by auto

text \<open>
  C10. A load does not enforce the capacity. When the read succeeds and every element
  of the stored array is an object with a non-empty string \<open>text\<close> and a non-empty
  string \<open>timestamp\<close>, a load returns one entry for each of them, in the stored order,
  however many they are. The truncation to 20 is in the write-back of an append: what
  it stores is the new entry followed by the loaded ones, cut to 20.
\<close>

theorem load_does_not_truncate:
  assumes "\<not> get_fails h" and "items h key = Some (LSString p)" and "JSON_parse p = Inr (JArray js)"
    and "\<forall>j\<in>set js. search_of dp j \<noteq> None"
  shows "getRecentSearches dp h key = Inr (Some (map (the \<circ> search_of dp) js))
         \<and> length (map (the \<circ> search_of dp) js) = length js
         \<and> (\<not> set_fails h \<longrightarrow>
              items (snd (appendRecentSearchesStore dp h key search)) key
                = Some (LSString (JSON_stringify (take 20 (search # map (the \<circ> search_of dp) js))))
              \<and> length (take 20 (search # map (the \<circ> search_of dp) js)) \<le> 20)"
proof -
  have "JNull \<notin> set js"
    using assms(4) search_of_not_null by blast
  then have load: "getRecentSearches dp h key = Inr (Some (map (the \<circ> search_of dp) js))"
    using getRecentSearches_parsed [OF assms(1,2,3)] map_filter_all_Some [OF assms(4)] by simp
  show ?thesis
    by (simp add: load appendRecentSearchesStore_effect [OF load])
qed

theorem load_does_not_truncate_witness:
  "getRecentSearches Date_parse_ISO (host_with [(str ''recent'') \<mapsto> LSString (JSON_stringify (replicate 21 sample_search))])
     (str ''recent'') = Inr (Some (replicate 21 sample_search))
   \<and> length (replicate 21 sample_search) = 21
   \<and> items (snd (appendRecentSearchesStore Date_parse_ISO
        (host_with [(str ''recent'') \<mapsto> LSString (JSON_stringify (replicate 21 sample_search))])
        (str ''recent'') sample_search)) (str ''recent'')
       = Some (LSString (JSON_stringify (replicate 20 sample_search)))"
proof -
  let ?p = "JSON_stringify (replicate 21 sample_search)"
  let ?js = "map json_of_search (replicate 21 sample_search)"
  let ?h = "host_with [(str ''recent'') \<mapsto> LSString ?p]"
  have a: "\<not> get_fails ?h" and b: "items ?h (str ''recent'') = Some (LSString ?p)" and s: "\<not> set_fails ?h"
    by (simp_all add: host_with_def)
  have c: "JSON_parse ?p = Inr (JArray ?js)"
    by (rule JSON_parse_stringify)
  have one: "search_of Date_parse_ISO (json_of_search sample_search) = Some sample_search"
    by code_simp
  then have d: "\<forall>j\<in>set ?js. search_of Date_parse_ISO j \<noteq> None"
    by simp
  have e: "map (the \<circ> search_of Date_parse_ISO) ?js = replicate 21 sample_search"
    by (simp add: one)
  have f: "take 20 (sample_search # replicate 21 sample_search) = replicate 20 sample_search"
    by (simp add: numeral_eq_Suc)
  show ?thesis
    using load_does_not_truncate [OF a b c d, of sample_search] s unfolding e f by simp
qed

end
